theory Spec2Isabelle
  imports Main
begin

section \<open>Platform values: insertion-ordered maps, stable sorting, strings\<close>

text \<open>
  A JavaScript \<^verbatim>\<open>Map\<close> keeps its entries in insertion order and holds every key
  once. It is embedded as an association list in insertion order: \<^verbatim>\<open>set\<close> on a key
  already present replaces the value where the entry stands, on a new key it adds
  the entry at the end; \<^verbatim>\<open>delete\<close> drops the entry of the key.
\<close>

type_synonym ('k, 'v) jsmap = "('k \<times> 'v) list"

definition map_keys :: "('k, 'v) jsmap \<Rightarrow> 'k list" where
  "map_keys m = map fst m"

definition map_values :: "('k, 'v) jsmap \<Rightarrow> 'v list" where
  "map_values m = map snd m"

definition map_has :: "'k \<Rightarrow> ('k, 'v) jsmap \<Rightarrow> bool" where
  "map_has k m = (k \<in> set (map_keys m))"

definition map_get :: "'k \<Rightarrow> ('k, 'v) jsmap \<Rightarrow> 'v option" where
  "map_get k m = map_of m k"

fun map_set :: "'k \<Rightarrow> 'v \<Rightarrow> ('k, 'v) jsmap \<Rightarrow> ('k, 'v) jsmap" where
  "map_set k v [] = [(k, v)]"
| "map_set k v (e # m) = (if fst e = k then (k, v) # m else e # map_set k v m)"

definition map_delete :: "'k \<Rightarrow> ('k, 'v) jsmap \<Rightarrow> ('k, 'v) jsmap" where
  "map_delete k m = filter (\<lambda>e. fst e \<noteq> k) m"

definition map_size :: "('k, 'v) jsmap \<Rightarrow> nat" where
  "map_size m = length m"

text \<open>
  \<^verbatim>\<open>Array.prototype.sort(compare)\<close> is a stable sort: with a comparator that returns
  a negative number, zero or a positive number consistently, the result is the one
  sorted arrangement that keeps equal elements in their original order. Insertion
  from the right computes it.
\<close>

fun insert_sorted :: "('a \<Rightarrow> 'a \<Rightarrow> int) \<Rightarrow> 'a \<Rightarrow> 'a list \<Rightarrow> 'a list" where
  "insert_sorted cmp x [] = [x]"
| "insert_sorted cmp x (y # ys) =
     (if cmp x y \<le> 0 then x # y # ys else y # insert_sorted cmp x ys)"

definition array_sort :: "('a \<Rightarrow> 'a \<Rightarrow> int) \<Rightarrow> 'a list \<Rightarrow> 'a list" where
  "array_sort cmp xs = foldr (insert_sorted cmp) xs []"

text \<open>
  \<^verbatim>\<open>s.split("_")\<close> for a one-character separator: the pieces between the
  separators, never an empty array (the empty string splits into one empty piece).
\<close>

fun split :: "char \<Rightarrow> string \<Rightarrow> string list" where
  "split sep [] = [[]]"
| "split sep (c # cs) =
     (if c = sep then [] # split sep cs
      else (case split sep cs of
              [] \<Rightarrow> [[c]]
            | p # ps \<Rightarrow> (c # p) # ps))"

text \<open>
  A template literal renders a non-negative integer such as \<^verbatim>\<open>Date.now()\<close> in
  decimal digits.
\<close>

definition digit_char :: "nat \<Rightarrow> char" where
  "digit_char d = char_of (48 + d)"

fun number_toString :: "nat \<Rightarrow> string" where
  "number_toString n =
     (if n < 10 then [digit_char n]
      else number_toString (n div 10) @ [digit_char (n mod 10)])"

declare number_toString.simps [simp del]

section \<open>The event log: InMemoryEventStore\<close>

text \<open>
  The store is the map \<^verbatim>\<open>events\<close> from event id to the stream id and the message
  stored with it. Messages are opaque.
\<close>

record 'm event =
  streamId :: string
  message :: 'm

type_synonym 'm event_store = "(string, 'm event) jsmap"

text \<open>
  \<^verbatim>\<open>generateEventId\<close> reads the clock and the random generator. Both readings are
  arguments here: \<open>now\<close> is \<^verbatim>\<open>Date.now()\<close> in milliseconds, \<open>rnd\<close> is the text of
  \<^verbatim>\<open>Math.random().toString(36).substring(2, 10)\<close>, at most eight characters among
  the digits and the lower-case letters.
\<close>

definition generateEventId :: "string \<Rightarrow> nat \<Rightarrow> string \<Rightarrow> string" where
  "generateEventId sid now rnd = sid @ ''_'' @ number_toString now @ ''_'' @ rnd"

definition getStreamIdFromEventId :: "string \<Rightarrow> string" where
  "getStreamIdFromEventId eventId =
     (let parts = split (CHR ''_'') eventId
      in if length parts > 0 then parts ! 0 else [])"

definition storeEvent ::
  "string \<Rightarrow> 'm \<Rightarrow> nat \<Rightarrow> string \<Rightarrow> 'm event_store \<Rightarrow> string \<times> 'm event_store" where
  "storeEvent sid msg now rnd events =
     (let eventId = generateEventId sid now rnd
      in (eventId, map_set eventId \<lparr>streamId = sid, message = msg\<rparr> events))"

text \<open>
  The replay loop over the sorted entries. \<open>send\<close> is the caller's callback: it
  acts on the consumer's state \<open>c\<close> and may fail (\<open>Inl\<close>), which ends the replay
  with that failure. Each call is awaited before the loop goes on, so the consumer's
  state is threaded through the calls in order.
\<close>

fun replay_loop ::
  "string \<Rightarrow> string \<Rightarrow> (string \<Rightarrow> 'm \<Rightarrow> 'c \<Rightarrow> 'e + 'c) \<Rightarrow> bool \<Rightarrow>
   (string \<times> 'm event) list \<Rightarrow> 'c \<Rightarrow> 'e + 'c" where
  "replay_loop sid lastEventId send foundLastEvent [] c = Inr c"
| "replay_loop sid lastEventId send foundLastEvent (entry # rest) c =
     (if streamId (snd entry) \<noteq> sid then
        replay_loop sid lastEventId send foundLastEvent rest c
      else if fst entry = lastEventId then
        replay_loop sid lastEventId send True rest c
      else if foundLastEvent then
        (case send (fst entry) (message (snd entry)) c of
           Inl err \<Rightarrow> Inl err
         | Inr c' \<Rightarrow> replay_loop sid lastEventId send foundLastEvent rest c')
      else replay_loop sid lastEventId send foundLastEvent rest c)"

text \<open>
  \<^verbatim>\<open>localeCompare\<close> belongs to the platform and depends on its locale; it is the
  argument \<open>localeCompare\<close>. The result is the returned stream id with the
  consumer's state after the calls of \<open>send\<close>, or the failure of a call.
\<close>

definition replayEventsAfter ::
  "(string \<Rightarrow> string \<Rightarrow> int) \<Rightarrow> string \<Rightarrow> (string \<Rightarrow> 'm \<Rightarrow> 'c \<Rightarrow> 'e + 'c) \<Rightarrow> 'c \<Rightarrow>
   'm event_store \<Rightarrow> 'e + (string \<times> 'c)" where
  "replayEventsAfter localeCompare lastEventId send c events =
     (if lastEventId = [] \<or> \<not> map_has lastEventId events then Inr ([], c)
      else
        let sid = getStreamIdFromEventId lastEventId
        in if sid = [] then Inr ([], c)
           else
             let sortedEvents = array_sort (\<lambda>a b. localeCompare (fst a) (fst b)) events
             in (case replay_loop sid lastEventId send False sortedEvents c of
                   Inl err \<Rightarrow> Inl err
                 | Inr c' \<Rightarrow> Inr (sid, c')))"

definition clearStream :: "string \<Rightarrow> 'm event_store \<Rightarrow> 'm event_store" where
  "clearStream sid events =
     (let eventsToDelete = filter (\<lambda>eventId. getStreamIdFromEventId eventId = sid) (map_keys events)
      in foldl (\<lambda>m eventId. map_delete eventId m) events eventsToDelete)"

definition getEventCount :: "'m event_store \<Rightarrow> nat" where
  "getEventCount events = map_size events"

definition getStreamEventCount :: "string \<Rightarrow> 'm event_store \<Rightarrow> nat" where
  "getStreamEventCount sid events =
     length (filter (\<lambda>event. streamId event = sid) (map_values events))"

text \<open>
  For the worked examples: a consumer that records the calls of \<open>send\<close> in order
  and never fails, and the comparison of strings by character codes. The ids of the
  examples are made of lower-case letters and digits, with their underscores at the
  same places; on such ids a collation orders as the character codes do.
\<close>

definition record_send :: "string \<Rightarrow> 'm \<Rightarrow> (string \<times> 'm) list \<Rightarrow> unit + (string \<times> 'm) list" where
  "record_send eventId msg calls = Inr (calls @ [(eventId, msg)])"

fun codeUnitCompare :: "string \<Rightarrow> string \<Rightarrow> int" where
  "codeUnitCompare [] [] = 0"
| "codeUnitCompare [] (y # ys) = - 1"
| "codeUnitCompare (x # xs) [] = 1"
| "codeUnitCompare (x # xs) (y # ys) =
     (if (of_char x :: nat) < of_char y then - 1
      else if (of_char y :: nat) < of_char x then 1
      else codeUnitCompare xs ys)"

text \<open>
  A history of appends: each call of \<^verbatim>\<open>storeEvent\<close> with the stream, the message
  and the two readings its id is made of. \<open>storeEvents\<close> runs the calls in order.
\<close>

record 'm append_call =
  to_stream :: string
  payload :: 'm
  clock :: nat
  suffix :: string

fun storeEvents :: "'m append_call list \<Rightarrow> 'm event_store \<Rightarrow> 'm event_store" where
  "storeEvents [] events = events"
| "storeEvents (a # rest) events =
     storeEvents rest (snd (storeEvent (to_stream a) (payload a) (clock a) (suffix a) events))"

text \<open>The entry that one call of \<^verbatim>\<open>storeEvent\<close> writes: the generated id and the record.\<close>

definition stored_entry :: "'m append_call \<Rightarrow> string \<times> 'm event" where
  "stored_entry a =
     (generateEventId (to_stream a) (clock a) (suffix a),
      \<lparr>streamId = to_stream a, message = payload a\<rparr>)"

text \<open>
  What \<^verbatim>\<open>Array.prototype.sort\<close> asks of its comparator, and what every collation
  gives: the sign of \<open>cmp b a\<close> is the opposite of the sign of \<open>cmp a b\<close>, and
  ``not after'' is transitive.
\<close>

definition consistent_comparator :: "('a \<Rightarrow> 'a \<Rightarrow> int) \<Rightarrow> bool" where
  "consistent_comparator cmp \<longleftrightarrow>
     (\<forall>a b. (cmp a b < 0) = (0 < cmp b a)) \<and>
     (\<forall>a b c. cmp a b \<le> 0 \<longrightarrow> cmp b c \<le> 0 \<longrightarrow> cmp a c \<le> 0)"

section \<open>Configuration validation: DynamicConfigSchema\<close>

text \<open>
  \<^verbatim>\<open>queryParams\<close> is a \<^verbatim>\<open>Record<string, any>\<close>: a key is absent (or \<^verbatim>\<open>undefined\<close>), holds
  a string, or holds a value of another type. For such a value \<open>JOther\<close> carries the
  name of its type as the validation library reports it (\<^verbatim>\<open>number\<close>, \<^verbatim>\<open>array\<close>,
  \<^verbatim>\<open>null\<close>, ...).
\<close>

datatype jsvalue = JString string | JOther string

type_synonym query_params = "string \<Rightarrow> jsvalue option"

text \<open>An issue of a failed validation: the path of the field and the message.\<close>

record issue =
  path :: "string list"
  issue_message :: string

text \<open>
  The schema is built from the validation library's parsers. Each takes the path of
  the field and the value found there, and returns the parsed value or its issues:
  \<^item> \<^verbatim>\<open>z.string()\<close> accepts a string; a missing value is reported as \<^verbatim>\<open>Required\<close>;
  \<^item> a check such as \<^verbatim>\<open>.url(msg)\<close> or \<^verbatim>\<open>.min(1, msg)\<close> reports \<open>msg\<close> when a string fails it;
  \<^item> \<^verbatim>\<open>z.enum([...])\<close> accepts one of the listed strings;
  \<^item> \<^verbatim>\<open>.optional()\<close> accepts a missing value;
  \<^item> \<^verbatim>\<open>.optional().default(d)\<close> parses \<open>d\<close> in place of a missing value.
  The test \<^verbatim>\<open>new URL(s)\<close> behind \<^verbatim>\<open>.url\<close> belongs to the platform and is the argument
  \<open>validURL\<close>.
\<close>

type_synonym 'a parser = "string list \<Rightarrow> jsvalue option \<Rightarrow> issue list + 'a"

definition z_string :: "string parser" where
  "z_string p input =
     (case input of
        None \<Rightarrow> Inl [\<lparr>path = p, issue_message = ''Required''\<rparr>]
      | Some (JOther t) \<Rightarrow> Inl [\<lparr>path = p, issue_message = ''Expected string, received '' @ t\<rparr>]
      | Some (JString s) \<Rightarrow> Inr s)"

definition z_check :: "(string \<Rightarrow> bool) \<Rightarrow> string \<Rightarrow> string parser \<Rightarrow> string parser" where
  "z_check passes msg inner p input =
     (case inner p input of
        Inl issues \<Rightarrow> Inl issues
      | Inr s \<Rightarrow> if passes s then Inr s else Inl [\<lparr>path = p, issue_message = msg\<rparr>])"

definition z_url :: "(string \<Rightarrow> bool) \<Rightarrow> string \<Rightarrow> string parser \<Rightarrow> string parser" where
  "z_url validURL msg inner = z_check validURL msg inner"

definition z_min :: "nat \<Rightarrow> string \<Rightarrow> string parser \<Rightarrow> string parser" where
  "z_min n msg inner = z_check (\<lambda>s. n \<le> length s) msg inner"

fun join :: "string \<Rightarrow> string list \<Rightarrow> string" where
  "join sep [] = []"
| "join sep [x] = x"
| "join sep (x # y # ys) = x @ sep @ join sep (y # ys)"

definition joinValues :: "string list \<Rightarrow> string" where
  "joinValues vs = join '' | '' (map (\<lambda>v. [CHR 0x27] @ v @ [CHR 0x27]) vs)"

definition z_enum :: "string list \<Rightarrow> string parser" where
  "z_enum vs p input =
     (case input of
        None \<Rightarrow> Inl [\<lparr>path = p, issue_message = ''Required''\<rparr>]
      | Some (JOther t) \<Rightarrow>
          Inl [\<lparr>path = p, issue_message = ''Expected '' @ joinValues vs @ '', received '' @ t\<rparr>]
      | Some (JString s) \<Rightarrow>
          if s \<in> set vs then Inr s
          else Inl [\<lparr>path = p,
                     issue_message = ''Invalid enum value. Expected '' @ joinValues vs
                       @ '', received '' @ [CHR 0x27] @ s @ [CHR 0x27]\<rparr>])"

definition z_optional :: "'a parser \<Rightarrow> 'a option parser" where
  "z_optional inner p input =
     (case input of
        None \<Rightarrow> Inr None
      | Some v \<Rightarrow> (case inner p (Some v) of Inl issues \<Rightarrow> Inl issues | Inr x \<Rightarrow> Inr (Some x)))"

definition z_optional_default :: "string \<Rightarrow> 'a parser \<Rightarrow> 'a parser" where
  "z_optional_default d inner p input =
     (case input of
        None \<Rightarrow> inner p (Some (JString d))
      | Some v \<Rightarrow> inner p (Some v))"

record dynamic_config =
  api_url :: string
  access_token :: string
  project_id :: "string option"
  read_only :: string
  use_wiki :: string
  use_milestone :: string
  use_pipeline :: string

definition issues_of :: "issue list + 'a \<Rightarrow> issue list" where
  "issues_of r = (case r of Inl issues \<Rightarrow> issues | Inr x \<Rightarrow> [])"

text \<open>
  \<^verbatim>\<open>DynamicConfigSchema.parse\<close>: an object schema parses every field of its shape, in the
  order of the shape, and gathers the issues of all of them; keys outside the shape
  are dropped. It returns the record when no field raised an issue, and fails with
  all the issues otherwise.
\<close>

definition DynamicConfigSchema_parse ::
  "(string \<Rightarrow> bool) \<Rightarrow> query_params \<Rightarrow> issue list + dynamic_config" where
  "DynamicConfigSchema_parse validURL q =
     (let r_api_url = z_url validURL ''Invalid GitLab API URL'' z_string [''api_url''] (q ''api_url'');
          r_access_token =
            z_min 1 ''Access token is required'' z_string [''access_token''] (q ''access_token'');
          r_project_id = z_optional z_string [''project_id''] (q ''project_id'');
          r_read_only =
            z_optional_default ''false'' (z_enum [''true'', ''false'']) [''read_only''] (q ''read_only'');
          r_use_wiki =
            z_optional_default ''false'' (z_enum [''true'', ''false'']) [''use_wiki''] (q ''use_wiki'');
          r_use_milestone =
            z_optional_default ''false'' (z_enum [''true'', ''false'']) [''use_milestone'']
              (q ''use_milestone'');
          r_use_pipeline =
            z_optional_default ''false'' (z_enum [''true'', ''false'']) [''use_pipeline'']
              (q ''use_pipeline'')
      in case (r_api_url, r_access_token, r_project_id, r_read_only, r_use_wiki, r_use_milestone,
               r_use_pipeline) of
           (Inr a, Inr b, Inr c, Inr d, Inr e, Inr f, Inr g) \<Rightarrow>
             Inr \<lparr>api_url = a, access_token = b, project_id = c, read_only = d, use_wiki = e,
                  use_milestone = f, use_pipeline = g\<rparr>
         | _ \<Rightarrow>
             Inl (issues_of r_api_url @ issues_of r_access_token @ issues_of r_project_id
                  @ issues_of r_read_only @ issues_of r_use_wiki @ issues_of r_use_milestone
                  @ issues_of r_use_pipeline))"

text \<open>
  The fields of the schema, and the offending fields in the specification's words: the
  URL is missing or malformed, the credential is missing or empty, the project id is
  present and not a string, a toggle is present and not one of the two accepted
  strings.
\<close>

definition schema_fields :: "string list" where
  "schema_fields = [''api_url'', ''access_token'', ''project_id'', ''read_only'', ''use_wiki'',
                    ''use_milestone'', ''use_pipeline'']"

definition spec_offending_field :: "(string \<Rightarrow> bool) \<Rightarrow> query_params \<Rightarrow> string \<Rightarrow> bool" where
  "spec_offending_field validURL q field =
     (if field = ''api_url'' then
        (case q field of Some (JString s) \<Rightarrow> \<not> validURL s | _ \<Rightarrow> True)
      else if field = ''access_token'' then
        (case q field of Some (JString s) \<Rightarrow> s = [] | _ \<Rightarrow> True)
      else if field = ''project_id'' then
        (case q field of Some (JOther t) \<Rightarrow> True | _ \<Rightarrow> False)
      else if field \<in> set [''read_only'', ''use_wiki'', ''use_milestone'', ''use_pipeline''] then
        (case q field of
           None \<Rightarrow> False
         | Some (JString s) \<Rightarrow> s \<noteq> ''true'' \<and> s \<noteq> ''false''
         | Some (JOther t) \<Rightarrow> True)
      else False)"

section \<open>The session registry: DynamicGitLabConfigManager\<close>

text \<open>
  Dates are their millisecond timestamps. The registry is the map \<^verbatim>\<open>sessions\<close> with
  the two settings the constructor fixes. A reading of the clock is an argument of
  the operation that reads it.
\<close>

record session_config =
  sessionId :: string
  config :: dynamic_config
  createdAt :: int
  lastUsed :: int

record manager =
  sessions :: "(string, session_config) jsmap"
  maxSessions :: nat
  sessionTimeout :: int

datatype error = Error string

definition DynamicGitLabConfigManager :: "nat \<Rightarrow> int \<Rightarrow> manager" where
  "DynamicGitLabConfigManager maxSessions' sessionTimeoutMinutes =
     \<lparr>sessions = [], maxSessions = maxSessions', sessionTimeout = sessionTimeoutMinutes * 60 * 1000\<rparr>"

text \<open>
  \<^verbatim>\<open>Math.floor(this.maxSessions * 0.1)\<close>. The capacity is a natural number. The double
  \<^verbatim>\<open>0.1\<close> exceeds a tenth by one part in \<open>2 ^ 54\<close>, so for a capacity \<open>n\<close>
  below \<open>2 ^ 40\<close>, more than a map can hold, the product rounds to \<open>n div 10\<close> itself
  when ten divides \<open>n\<close> and stays strictly between \<open>n div 10\<close> and the next integer
  otherwise: its floor is the integer quotient by ten.
\<close>

definition floor_tenth :: "nat \<Rightarrow> nat" where
  "floor_tenth n = n div 10"

definition cleanupOldestSessions :: "nat \<Rightarrow> manager \<Rightarrow> manager" where
  "cleanupOldestSessions count' mgr =
     (let sortedSessions =
            take count' (array_sort (\<lambda>a b. lastUsed (snd a) - lastUsed (snd b)) (sessions mgr))
      in mgr\<lparr>sessions := foldl (\<lambda>m entry. map_delete (fst entry) m) (sessions mgr) sortedSessions\<rparr>)"

definition render_issue :: "issue \<Rightarrow> string" where
  "render_issue e = join ''.'' (path e) @ '': '' @ issue_message e"

text \<open>
  \<^verbatim>\<open>createSessionConfig\<close> reads the clock twice, for \<^verbatim>\<open>createdAt\<close> and for \<^verbatim>\<open>lastUsed\<close>.
  The result is the thrown error or the returned record, with the registry after the
  call.
\<close>

definition createSessionConfig ::
  "(string \<Rightarrow> bool) \<Rightarrow> int \<Rightarrow> int \<Rightarrow> string \<Rightarrow> query_params \<Rightarrow> manager \<Rightarrow>
   (error + session_config) \<times> manager" where
  "createSessionConfig validURL nowCreated nowUsed sid queryParams mgr =
     (case DynamicConfigSchema_parse validURL queryParams of
        Inl errors \<Rightarrow>
          (Inl (Error (''Invalid configuration parameters: ''
                       @ join '', '' (map render_issue errors))), mgr)
      | Inr cfg \<Rightarrow>
          let sessionConfig' = \<lparr>sessionId = sid, config = cfg, createdAt = nowCreated,
                                 lastUsed = nowUsed\<rparr>;
              mgr1 = (if map_size (sessions mgr) \<ge> maxSessions mgr
                      then cleanupOldestSessions (floor_tenth (maxSessions mgr)) mgr
                      else mgr)
          in (Inr sessionConfig', mgr1\<lparr>sessions := map_set sid sessionConfig' (sessions mgr1)\<rparr>))"

text \<open>
  \<^verbatim>\<open>getSessionConfig\<close> compares \<^verbatim>\<open>Date.now()\<close> with the record's \<^verbatim>\<open>lastUsed\<close> and, when
  the record is kept, writes a second reading of the clock into the record held by
  the map.
\<close>

definition getSessionConfig ::
  "int \<Rightarrow> int \<Rightarrow> string \<Rightarrow> manager \<Rightarrow> session_config option \<times> manager" where
  "getSessionConfig dateNow newDate sid mgr =
     (case map_get sid (sessions mgr) of
        None \<Rightarrow> (None, mgr)
      | Some session \<Rightarrow>
          if dateNow - lastUsed session > sessionTimeout mgr
          then (None, mgr\<lparr>sessions := map_delete sid (sessions mgr)\<rparr>)
          else let session' = session\<lparr>lastUsed := newDate\<rparr>
               in (Some session', mgr\<lparr>sessions := map_set sid session' (sessions mgr)\<rparr>))"

definition removeSessionConfig :: "string \<Rightarrow> manager \<Rightarrow> bool \<times> manager" where
  "removeSessionConfig sid mgr =
     (map_has sid (sessions mgr), mgr\<lparr>sessions := map_delete sid (sessions mgr)\<rparr>)"

definition getActiveSessionCount :: "manager \<Rightarrow> nat" where
  "getActiveSessionCount mgr = map_size (sessions mgr)"

text \<open>The periodic sweep, which the constructor schedules every five minutes.\<close>

definition cleanupExpiredSessions :: "int \<Rightarrow> manager \<Rightarrow> manager" where
  "cleanupExpiredSessions now mgr =
     (let expiredSessions =
            map fst (filter (\<lambda>entry. now - lastUsed (snd entry) > sessionTimeout mgr) (sessions mgr))
      in mgr\<lparr>sessions := foldl (\<lambda>m sid. map_delete sid m) (sessions mgr) expiredSessions\<rparr>)"

section \<open>The clients: SessionAwareGitLabClient and SessionClientManager\<close>

text \<open>
  The constructor of a client keeps the session record and chooses a proxy agent from
  the environment. What it reads there is gathered in \<open>platform\<close>: the two proxy
  variables, the protocol \<^verbatim>\<open>new URL(s).protocol\<close> of a URL (\<open>None\<close> when \<^verbatim>\<open>new URL\<close>
  throws), and whether the constructor of a proxy agent accepts a proxy URL.
\<close>

datatype agent = HttpsProxyAgent string | HttpProxyAgent string

record platform =
  env_HTTP_PROXY :: "string option"
  env_HTTPS_PROXY :: "string option"
  url_protocol :: "string \<Rightarrow> string option"
  proxy_agent_accepts :: "string \<Rightarrow> bool"

record client =
  sessionConfig :: session_config
  agent :: "agent option"

text \<open>
  \<^verbatim>\<open>a || b\<close> on optional strings: \<^verbatim>\<open>undefined\<close> and the empty string are falsy.
\<close>

definition truthy :: "string option \<Rightarrow> bool" where
  "truthy v = (case v of None \<Rightarrow> False | Some s \<Rightarrow> s \<noteq> [])"

definition js_or :: "string option \<Rightarrow> string option \<Rightarrow> string option" where
  "js_or a b = (if truthy a then a else b)"

definition setupProxyAgent :: "platform \<Rightarrow> session_config \<Rightarrow> agent option" where
  "setupProxyAgent pf sc =
     (let proxyUrl = js_or (env_HTTP_PROXY pf) (env_HTTPS_PROXY pf)
      in if \<not> truthy proxyUrl then None
         else (case (proxyUrl, url_protocol pf (api_url (config sc))) of
                 (Some proxy, Some protocol) \<Rightarrow>
                   if \<not> proxy_agent_accepts pf proxy then None
                   else if protocol = ''https:'' then Some (HttpsProxyAgent proxy)
                   else Some (HttpProxyAgent proxy)
               | _ \<Rightarrow> None))"

definition new_SessionAwareGitLabClient :: "platform \<Rightarrow> session_config \<Rightarrow> client" where
  "new_SessionAwareGitLabClient pf sc = \<lparr>sessionConfig = sc, agent = setupProxyAgent pf sc\<rparr>"

definition getEffectiveProjectId :: "client \<Rightarrow> string option \<Rightarrow> string" where
  "getEffectiveProjectId cl requestProjectId =
     (case js_or (js_or requestProjectId (project_id (config (sessionConfig cl)))) (Some []) of
        Some s \<Rightarrow> s
      | None \<Rightarrow> [])"

text \<open>
  The pool maps a session id to a client object. Objects have identity: each client
  that the pool constructs gets the next reference, and the pool holds the reference
  with the object. Two results of \<^verbatim>\<open>getClient\<close> are the same instance when their
  references are equal.
\<close>

type_synonym client_ref = "nat \<times> client"

record client_manager =
  clients :: "(string, client_ref) jsmap"
  allocated :: nat

definition new_SessionClientManager :: client_manager where
  "new_SessionClientManager = \<lparr>clients = [], allocated = 0\<rparr>"

definition getClient ::
  "platform \<Rightarrow> session_config \<Rightarrow> client_manager \<Rightarrow> client_ref \<times> client_manager" where
  "getClient pf sc pool =
     (case map_get (sessionId sc) (clients pool) of
        Some cl \<Rightarrow> (cl, pool)
      | None \<Rightarrow>
          let cl = (allocated pool, new_SessionAwareGitLabClient pf sc)
          in (cl, pool\<lparr>clients := map_set (sessionId sc) cl (clients pool),
                       allocated := Suc (allocated pool)\<rparr>))"

definition removeClient :: "string \<Rightarrow> client_manager \<Rightarrow> bool \<times> client_manager" where
  "removeClient sid pool =
     (map_has sid (clients pool), pool\<lparr>clients := map_delete sid (clients pool)\<rparr>)"

definition getActiveClientCount :: "client_manager \<Rightarrow> nat" where
  "getActiveClientCount pool = map_size (clients pool)"

definition clearAll :: "client_manager \<Rightarrow> client_manager" where
  "clearAll pool = pool\<lparr>clients := []\<rparr>"

text \<open>
  The pool's invariant: one entry per session id, one reference per client, every
  reference below the allocation counter.
\<close>

definition pool_ok :: "client_manager \<Rightarrow> bool" where
  "pool_ok pool \<longleftrightarrow>
     distinct (map_keys (clients pool)) \<and>
     distinct (map fst (map_values (clients pool))) \<and>
     list_all (\<lambda>cl. fst cl < allocated pool) (map_values (clients pool))"

section \<open>Values for the worked examples\<close>

text \<open>
  A stand-in for the platform's URL test, query parameters that pass the schema with
  the configuration they parse to, query parameters that fail it in three fields, a
  registry filled by \<open>n\<close> successive creations (session \<^verbatim>\<open>s\<close>\<open>i\<close> created at time \<open>i\<close>),
  and an environment without proxy settings.
\<close>

definition has_http_scheme :: "string \<Rightarrow> bool" where
  "has_http_scheme s = (take 7 s = ''http://'' \<or> take 8 s = ''https://'')"

definition sample_params :: query_params where
  "sample_params =
     [''api_url'' \<mapsto> JString ''https://gitlab.example/api/v4'',
      ''access_token'' \<mapsto> JString ''token-1'',
      ''project_id'' \<mapsto> JString ''group/project'']"

definition sample_config :: dynamic_config where
  "sample_config =
     \<lparr>api_url = ''https://gitlab.example/api/v4'', access_token = ''token-1'',
      project_id = Some ''group/project'', read_only = ''false'', use_wiki = ''false'',
      use_milestone = ''false'', use_pipeline = ''false''\<rparr>"

definition bad_params :: query_params where
  "bad_params = [''api_url'' \<mapsto> JString ''gitlab'', ''project_id'' \<mapsto> JOther ''array'']"

fun create_sessions :: "nat \<Rightarrow> manager \<Rightarrow> manager" where
  "create_sessions 0 mgr = mgr"
| "create_sessions (Suc n) mgr =
     snd (createSessionConfig has_http_scheme (int n) (int n) (''s'' @ number_toString n) sample_params
            (create_sessions n mgr))"

definition no_proxy :: platform where
  "no_proxy = \<lparr>env_HTTP_PROXY = None, env_HTTPS_PROXY = None,
               url_protocol = (\<lambda>s. None), proxy_agent_accepts = (\<lambda>s. False)\<rparr>"

definition sample_session :: "string \<Rightarrow> session_config" where
  "sample_session sid = \<lparr>sessionId = sid, config = sample_config, createdAt = 0, lastUsed = 0\<rparr>"

section \<open>Event log: results\<close>

lemma split_not_Nil: "split sep s \<noteq> []"
  by (induction s) (auto split: list.splits)

lemma hd_split: "hd (split sep s) = takeWhile (\<lambda>c. c \<noteq> sep) s"
  by (induction s) (auto simp: split_not_Nil split: list.splits)

lemma getStreamIdFromEventId_takeWhile:
  "getStreamIdFromEventId eventId = takeWhile (\<lambda>c. c \<noteq> CHR ''_'') eventId"
  using split_not_Nil [of "CHR ''_''" eventId] hd_split [of "CHR ''_''" eventId]
  by (simp add: getStreamIdFromEventId_def Let_def hd_conv_nth)

subsection \<open>The map and the sort\<close>

lemma map_of_map_set: "map_of (map_set k v m) = (map_of m)(k \<mapsto> v)"
  by (induction m) (auto simp: fun_eq_iff)

lemma keys_map_set: "set (map fst (map_set k v m)) = insert k (set (map fst m))"
  by (induction m) auto

lemma distinct_map_set: "distinct (map fst m) \<Longrightarrow> distinct (map fst (map_set k v m))"
  by (induction m) (auto simp: keys_map_set simp flip: set_map)

lemma set_insert_sorted: "set (insert_sorted cmp x ys) = insert x (set ys)"
  by (induction ys) auto

lemma set_array_sort: "set (array_sort cmp xs) = set xs"
  by (induction xs) (auto simp: array_sort_def set_insert_sorted)

lemma length_insert_sorted: "length (insert_sorted cmp x ys) = Suc (length ys)"
  by (induction ys) auto

lemma length_array_sort: "length (array_sort cmp xs) = length xs"
  by (induction xs) (auto simp: array_sort_def length_insert_sorted)

lemma distinct_map_insert_sorted:
  "distinct (map f (insert_sorted cmp x ys)) \<longleftrightarrow> f x \<notin> f ` set ys \<and> distinct (map f ys)"
  by (induction ys) (auto simp: set_insert_sorted)

lemma distinct_map_array_sort: "distinct (map f (array_sort cmp xs)) \<longleftrightarrow> distinct (map f xs)"
  by (induction xs) (auto simp: array_sort_def distinct_map_insert_sorted set_array_sort [unfolded array_sort_def])

lemma sorted_insert_sorted:
  assumes cmp: "consistent_comparator cmp" and ys: "sorted_wrt (\<lambda>a b. cmp a b \<le> 0) ys"
  shows "sorted_wrt (\<lambda>a b. cmp a b \<le> 0) (insert_sorted cmp x ys)"
  using ys
proof (induction ys)
  case Nil
  then show ?case by simp
next
  case (Cons y ys)
  have tail: "sorted_wrt (\<lambda>a b. cmp a b \<le> 0) ys" and head: "\<forall>z\<in>set ys. cmp y z \<le> 0"
    using Cons.prems by simp_all
  show ?case
  proof (cases "cmp x y \<le> 0")
    case True
    have "\<forall>z\<in>set ys. cmp x z \<le> 0"
      using True head cmp unfolding consistent_comparator_def by blast
    then show ?thesis using True Cons.prems by simp
  next
    case False
    then have "0 < cmp x y" by simp
    then have "cmp y x < 0" using cmp unfolding consistent_comparator_def by blast
    then have "cmp y x \<le> 0" by simp
    then show ?thesis using False head Cons.IH [OF tail] by (simp add: set_insert_sorted)
  qed
qed

lemma sorted_array_sort:
  "consistent_comparator cmp \<Longrightarrow> sorted_wrt (\<lambda>a b. cmp a b \<le> 0) (array_sort cmp xs)"
  by (induction xs) (auto simp: array_sort_def sorted_insert_sorted)

lemma replay_loop_filter:
  "replay_loop sid lastEventId send found xs c =
   replay_loop sid lastEventId send found (filter (\<lambda>e. streamId (snd e) = sid) xs) c"
  by (induction xs arbitrary: found c) (auto split: sum.splits)

lemma sorted_three:
  assumes "sorted_wrt le ys" "distinct ys" "set ys = {a, b, c}"
    and "\<not> le b a" "\<not> le c b" "\<not> le c a" and ne: "a \<noteq> b" "b \<noteq> c" "a \<noteq> c"
  shows "ys = [a, b, c]"
proof -
  have "card (set ys) = 3" unfolding assms(3) using ne by simp
  then have "length ys = 3" using assms(2) distinct_card [of ys] by simp
  then obtain y1 y2 y3 where ys: "ys = [y1, y2, y3]"
    by (auto simp: numeral_3_eq_3 length_Suc_conv)
  have "y1 \<in> set ys" "y2 \<in> set ys" "y3 \<in> set ys" unfolding ys by simp_all
  then have m: "y1 = a \<or> y1 = b \<or> y1 = c" "y2 = a \<or> y2 = b \<or> y2 = c" "y3 = a \<or> y3 = b \<or> y3 = c" 
    unfolding assms(3) by simp_all
  have l: "le y1 y2" "le y1 y3" "le y2 y3" "y1 \<noteq> y2" "y1 \<noteq> y3" "y2 \<noteq> y3"
    using assms(1,2) unfolding ys by simp_all
  have "y1 = a" using m l assms(4,5,6) by metis
  moreover have "y3 = c" using m l assms(4,5,6) by metis
  moreover have "y2 = b" using m l calculation by metis
  ultimately show ?thesis unfolding ys by simp
qed

subsection \<open>The store after a history of appends\<close>

lemma storeEvents_Cons:
  "storeEvents (a # rest) events =
   storeEvents rest (map_set (fst (stored_entry a)) (snd (stored_entry a)) events)"
  by (simp add: storeEvent_def stored_entry_def Let_def)

lemma set_map_set_subset: "set (map_set k v m) \<subseteq> insert (k, v) (set m)"
  by (induction m) auto

lemma map_set_mem_new: "(k, v) \<in> set (map_set k v m)"
  by (induction m) auto

lemma map_set_mem_other: "(k, v) \<in> set m \<Longrightarrow> k \<noteq> k' \<Longrightarrow> (k, v) \<in> set (map_set k' v' m)"
  by (induction m) auto

lemma storeEvents_distinct:
  "distinct (map fst events) \<Longrightarrow> distinct (map fst (storeEvents h events))"
proof (induction h arbitrary: events)
  case Nil
  then show ?case by simp
next
  case (Cons a rest)
  show ?case unfolding storeEvents_Cons
    by (rule Cons.IH) (rule distinct_map_set [OF Cons.prems])
qed

lemma storeEvents_origin:
  "e \<in> set (storeEvents h events) \<Longrightarrow> e \<in> stored_entry ` set h \<or> e \<in> set events"
proof (induction h arbitrary: events)
  case Nil
  then show ?case by simp
next
  case (Cons a rest)
  from Cons.prems have "e \<in> stored_entry ` set rest \<or>
      e \<in> set (map_set (fst (stored_entry a)) (snd (stored_entry a)) events)"
    unfolding storeEvents_Cons by (rule Cons.IH)
  moreover have "set (map_set (fst (stored_entry a)) (snd (stored_entry a)) events)
      \<subseteq> insert (stored_entry a) (set events)"
    using set_map_set_subset [of "fst (stored_entry a)" "snd (stored_entry a)" events] by simp
  ultimately show ?case by auto
qed

lemma storeEvents_keeps:
  "(k, v) \<in> set events \<Longrightarrow>
   (\<And>b. b \<in> set h \<Longrightarrow> fst (stored_entry b) = k \<Longrightarrow> snd (stored_entry b) = v) \<Longrightarrow>
   (k, v) \<in> set (storeEvents h events)"
proof (induction h arbitrary: events)
  case Nil
  then show ?case by simp
next
  case (Cons a rest)
  have step: "(k, v) \<in> set (map_set (fst (stored_entry a)) (snd (stored_entry a)) events)"
  proof (cases "fst (stored_entry a) = k")
    case True
    then have "snd (stored_entry a) = v" using Cons.prems(2) [of a] by simp
    then show ?thesis using True map_set_mem_new [of k v events] by simp
  next
    case False
    then show ?thesis using Cons.prems(1) by (simp add: map_set_mem_other)
  qed
  show ?case unfolding storeEvents_Cons
    by (rule Cons.IH [OF step]) (use Cons.prems(2) in simp)
qed

lemma storeEvents_stored:
  "a \<in> set h \<Longrightarrow>
   (\<And>b. b \<in> set h \<Longrightarrow> fst (stored_entry b) = fst (stored_entry a) \<Longrightarrow>
      snd (stored_entry b) = snd (stored_entry a)) \<Longrightarrow>
   stored_entry a \<in> set (storeEvents h events)"
proof (induction h arbitrary: events)
  case Nil
  then show ?case by simp
next
  case (Cons b rest)
  show ?case
  proof (cases "a \<in> set rest")
    case True
    show ?thesis unfolding storeEvents_Cons
      by (rule Cons.IH [OF True]) (use Cons.prems(2) in simp)
  next
    case False
    then have ab: "a = b" using Cons.prems(1) by simp
    have "(fst (stored_entry a), snd (stored_entry a))
        \<in> set (storeEvents rest (map_set (fst (stored_entry a)) (snd (stored_entry a)) events))"
      by (rule storeEvents_keeps [OF map_set_mem_new]) (use Cons.prems(2) in simp)
    then show ?thesis unfolding storeEvents_Cons ab by simp
  qed
qed

subsection \<open>Comparators and event ids\<close>

lemma codeUnitCompare_sign: "(codeUnitCompare a b < 0) = (0 < codeUnitCompare b a)"
  by (induction a b rule: codeUnitCompare.induct) auto

lemma codeUnitCompare_trans:
  "codeUnitCompare a b \<le> 0 \<Longrightarrow> codeUnitCompare b c \<le> 0 \<Longrightarrow> codeUnitCompare a c \<le> 0"
proof (induction a arbitrary: b c)
  case Nil
  then show ?case by (cases c) simp_all
next
  case (Cons x xs)
  from Cons.prems(1) obtain y ys where b: "b = y # ys" by (cases b) auto
  from Cons.prems(2) b obtain z zs where c: "c = z # zs" by (cases c) auto
  have xy: "(of_char x :: nat) \<le> of_char y"
    using Cons.prems(1) unfolding b by (simp split: if_splits)
  have yz: "(of_char y :: nat) \<le> of_char z"
    using Cons.prems(2) unfolding b c by (simp split: if_splits)
  show ?case
  proof (cases "(of_char x :: nat) < of_char z")
    case True
    then show ?thesis unfolding c by simp
  next
    case False
    then have "(of_char x :: nat) = of_char y" "(of_char y :: nat) = of_char z"
      using xy yz by linarith+
    then have eq: "x = y" "y = z" by simp_all
    have "codeUnitCompare xs ys \<le> 0" using Cons.prems(1) eq unfolding b by simp
    moreover have "codeUnitCompare ys zs \<le> 0" using Cons.prems(2) eq unfolding b c by simp
    ultimately have "codeUnitCompare xs zs \<le> 0" by (rule Cons.IH)
    then show ?thesis using eq unfolding c by simp
  qed
qed

lemma consistent_codeUnitCompare: "consistent_comparator codeUnitCompare"
  unfolding consistent_comparator_def
  using codeUnitCompare_sign codeUnitCompare_trans by blast

lemma consistent_comparator_on:
  "consistent_comparator cmp \<Longrightarrow> consistent_comparator (\<lambda>a b. cmp (f a) (f b))"
  unfolding consistent_comparator_def by blast

lemma digit_char_not_sep: "d < 10 \<Longrightarrow> digit_char d \<noteq> CHR ''_''"
proof
  assume d: "d < 10" and "digit_char d = CHR ''_''"
  then have "(of_char (char_of (48 + d) :: char) :: nat) = of_char (CHR ''_'')"
    by (simp add: digit_char_def)
  then show False using d by simp
qed

lemma number_toString_no_sep: "CHR ''_'' \<notin> set (number_toString n)"
proof (induction n rule: number_toString.induct)
  case (1 n)
  show ?case
  proof (cases "n < 10")
    case True
    then show ?thesis
      using digit_char_not_sep [of n] by (subst number_toString.simps) auto
  next
    case False
    then show ?thesis
      using "1.IH" digit_char_not_sep [of "n mod 10"]
      by (subst number_toString.simps) auto
  qed
qed

lemma getStreamIdFromEventId_generate:
  "CHR ''_'' \<notin> set sid \<Longrightarrow> getStreamIdFromEventId (generateEventId sid now rnd) = sid"
  by (simp add: getStreamIdFromEventId_takeWhile generateEventId_def takeWhile_append)

lemma generateEventId_stream_unique:
  assumes eq: "generateEventId T t r = generateEventId S t' r'"
    and S: "CHR ''_'' \<notin> set S" and r': "CHR ''_'' \<notin> set r'"
  shows "T = S"
proof -
  have none: "\<And>s. CHR ''_'' \<notin> set s \<Longrightarrow> filter (\<lambda>c. c = CHR ''_'') s = []"
    by (auto simp: filter_empty_conv)
  have "length (filter (\<lambda>c. c = CHR ''_'') (generateEventId T t r))
      = length (filter (\<lambda>c. c = CHR ''_'') (generateEventId S t' r'))"
    using eq by simp
  then have "length (filter (\<lambda>c. c = CHR ''_'') T) = 0"
    using none [OF S] none [OF r'] none [OF number_toString_no_sep]
    by (simp add: generateEventId_def)
  then have "CHR ''_'' \<notin> set T" by (auto simp: filter_empty_conv)
  then have "getStreamIdFromEventId (generateEventId T t r) = T"
    by (rule getStreamIdFromEventId_generate)
  moreover have "getStreamIdFromEventId (generateEventId S t' r') = S"
    using S by (rule getStreamIdFromEventId_generate)
  ultimately show ?thesis using eq by simp
qed

lemma consistent_comparator_refl: "consistent_comparator cmp \<Longrightarrow> cmp a a = 0"
proof -
  assume "consistent_comparator cmp"
  then have "(cmp a a < 0) = (0 < cmp a a)" unfolding consistent_comparator_def by blast
  then show ?thesis by linarith
qed

lemma replay_three:
  fixes send :: "string \<Rightarrow> 'm \<Rightarrow> 'c \<Rightarrow> 'e + 'c"
  assumes cmp: "consistent_comparator localeCompare"
    and sid: "sid \<noteq> []" "getStreamIdFromEventId e1 = sid"
    and keys: "distinct (map fst events)"
    and own: "{e \<in> set events. streamId (snd e) = sid} =
              {(e1, \<lparr>streamId = sid, message = m1\<rparr>), (e2, \<lparr>streamId = sid, message = m2\<rparr>),
               (e3, \<lparr>streamId = sid, message = m3\<rparr>)}"
    and order: "localeCompare e1 e2 < 0" "localeCompare e2 e3 < 0"
  shows "replayEventsAfter localeCompare e1 send c events =
         (case send e2 m2 c of
            Inl err \<Rightarrow> Inl err
          | Inr c' \<Rightarrow> (case send e3 m3 c' of
                         Inl err \<Rightarrow> Inl err
                       | Inr c'' \<Rightarrow> Inr (sid, c'')))"
proof -
  define x1 where "x1 = (e1, \<lparr>streamId = sid, message = m1\<rparr>)"
  define x2 where "x2 = (e2, \<lparr>streamId = sid, message = m2\<rparr>)"
  define x3 where "x3 = (e3, \<lparr>streamId = sid, message = m3\<rparr>)"
  define le where "le = (\<lambda>(a :: string \<times> 'm event) (b :: string \<times> 'm event). localeCompare (fst a) (fst b) \<le> 0)"
  define sortedEvents where "sortedEvents = array_sort (\<lambda>a b. localeCompare (fst a) (fst b)) events"
  define ys where "ys = filter (\<lambda>e. streamId (snd e) = sid) sortedEvents"
  have sign: "\<And>a b. (localeCompare a b < 0) = (0 < localeCompare b a)"
    and trans: "\<And>a b c. localeCompare a b \<le> 0 \<Longrightarrow> localeCompare b c \<le> 0 \<Longrightarrow> localeCompare a c \<le> 0"
    using cmp unfolding consistent_comparator_def by blast+
  have lt21: "0 < localeCompare e2 e1" using order(1) sign by blast
  have lt32: "0 < localeCompare e3 e2" using order(2) sign by blast
  have n31: "\<not> localeCompare e3 e1 \<le> 0"
  proof
    assume "localeCompare e3 e1 \<le> 0"
    moreover have "localeCompare e1 e2 \<le> 0" using order(1) by simp
    ultimately have "localeCompare e3 e2 \<le> 0" by (rule trans)
    then show False using lt32 by simp
  qed
  have refl: "\<And>a. localeCompare a a = 0" using cmp by (rule consistent_comparator_refl)
  have ne: "e1 \<noteq> e2" "e2 \<noteq> e3" "e1 \<noteq> e3"
    using order n31 refl by (metis less_irrefl, metis less_irrefl, metis order_refl)
  have "sorted_wrt le sortedEvents" unfolding le_def sortedEvents_def
    by (rule sorted_array_sort [OF consistent_comparator_on [OF cmp]])
  then have s: "sorted_wrt le ys" unfolding ys_def by (rule sorted_wrt_filter)
  have "distinct (map fst sortedEvents)" unfolding sortedEvents_def using keys
    by (simp add: distinct_map_array_sort)
  then have "distinct (map fst ys)" unfolding ys_def by (rule distinct_map_filter)
  then have d: "distinct ys" by (simp add: distinct_map)
  have "set ys = {e \<in> set events. streamId (snd e) = sid}"
    unfolding ys_def sortedEvents_def by (auto simp: set_array_sort)
  then have set: "set ys = {x1, x2, x3}" unfolding own x1_def x2_def x3_def .
  have "ys = [x1, x2, x3]"
    by (rule sorted_three [OF s d set])
       (use lt21 lt32 n31 ne in \<open>simp_all add: le_def x1_def x2_def x3_def\<close>)
  then have loop: "replay_loop sid e1 send False sortedEvents c =
      replay_loop sid e1 send False [x1, x2, x3] c"
    using replay_loop_filter [of sid e1 send False sortedEvents c] unfolding ys_def by simp
  have "x1 \<in> set events" using own unfolding x1_def by blast
  then have has: "map_has e1 events" unfolding map_has_def map_keys_def x1_def by force
  have "e1 \<noteq> []" using sid unfolding getStreamIdFromEventId_takeWhile by auto
  then show ?thesis
    using has sid ne loop unfolding replayEventsAfter_def sortedEvents_def [symmetric]
    by (simp add: x1_def x2_def x3_def split: sum.splits)
qed

lemma foldl_map_delete:
  "foldl (\<lambda>m k. map_delete k m) m ks = filter (\<lambda>e. fst e \<notin> set ks) m"
  by (induction ks arbitrary: m) (auto simp: map_delete_def intro: filter_cong)

lemma clearStream_filter:
  "clearStream sid events = filter (\<lambda>e. getStreamIdFromEventId (fst e) \<noteq> sid) events"
  by (auto simp: clearStream_def map_keys_def foldl_map_delete intro: filter_cong)

subsection \<open>Stream ids without underscore\<close>

text \<open>
  On the stores that appends build, the piece of an event id before its first
  underscore is the stream id stored with the event whenever that stream id has no
  underscore. For such streams \<^verbatim>\<open>clearStream\<close> deletes all their events and no others,
  and a replay returns the stored stream id.
\<close>

lemma stored_entry_parses:
  "CHR ''_'' \<notin> set (to_stream a) \<Longrightarrow> getStreamIdFromEventId (fst (stored_entry a)) = to_stream a"
  by (simp add: stored_entry_def getStreamIdFromEventId_generate)

lemma clearStream_clears_plain_stream:
  assumes "CHR ''_'' \<notin> set S"
  shows "getStreamEventCount S (clearStream S (storeEvents history [])) = 0"
proof -
  have "\<not> (getStreamIdFromEventId (fst e) \<noteq> S \<and> streamId (snd e) = S)"
    if "e \<in> set (storeEvents history [])" for e :: "string \<times> 'a event"
  proof -
    from that obtain a where a: "e = stored_entry a"
      using storeEvents_origin [of e history "[]"] by auto
    show ?thesis
    proof (cases "streamId (snd e) = S")
      case True
      then have "to_stream a = S" unfolding a stored_entry_def by simp
      then have "getStreamIdFromEventId (fst e) = S"
        unfolding a using assms stored_entry_parses [of a] by simp
      then show ?thesis by simp
    next
      case False
      then show ?thesis by simp
    qed
  qed
  then have "filter (\<lambda>e. streamId (snd e) = S)
      (filter (\<lambda>e. getStreamIdFromEventId (fst e) \<noteq> S) (storeEvents history [])) = []"
    by (auto simp: filter_empty_conv)
  then show ?thesis
    by (simp add: getStreamEventCount_def clearStream_filter map_values_def filter_map comp_def)
qed

lemma clearStream_keeps_plain_streams:
  assumes "e \<in> set (storeEvents history [])" "streamId (snd e) \<noteq> S"
    and "CHR ''_'' \<notin> set (streamId (snd e))"
  shows "e \<in> set (clearStream S (storeEvents history []))"
proof -
  from assms(1) obtain a where a: "e = stored_entry a"
    using storeEvents_origin [of e history "[]"] by auto
  have "to_stream a = streamId (snd e)" unfolding a stored_entry_def by simp
  then have "getStreamIdFromEventId (fst e) = streamId (snd e)"
    using assms(3) stored_entry_parses [of a] unfolding a by simp
  then show ?thesis using assms(1,2) by (simp add: clearStream_filter)
qed

lemma replay_returns_plain_stream:
  assumes stored: "(k, ev) \<in> set (storeEvents history [])"
    and plain: "CHR ''_'' \<notin> set (streamId ev)" "streamId ev \<noteq> []"
  shows "(case replayEventsAfter localeCompare k send c (storeEvents history []) of
            Inl err \<Rightarrow> True
          | Inr r \<Rightarrow> fst r = streamId ev)"
proof -
  from stored obtain a where a: "(k, ev) = stored_entry a"
    using storeEvents_origin [of "(k, ev)" history "[]"] by auto
  then have s: "to_stream a = streamId ev" and k: "k = fst (stored_entry a)"
    unfolding stored_entry_def by simp_all
  have sid: "getStreamIdFromEventId k = streamId ev"
    unfolding k using plain(1) stored_entry_parses [of a] s by simp
  then have "k \<noteq> []" using plain(2) unfolding getStreamIdFromEventId_takeWhile by auto
  moreover have "map_has k (storeEvents history [])"
    using stored unfolding map_has_def map_keys_def by force
  ultimately show ?thesis
    using sid plain(2) by (auto simp: replayEventsAfter_def Let_def split: sum.splits)
qed

subsection \<open>Replay and clearing\<close>

text \<open>
  C7. A replay asked to resume after the empty id, or after an id that no stored
  event has, returns the empty string at once: whatever the store, the comparison
  and the callback are, no error is raised and the consumer's state is the one it
  started with, so \<open>send\<close> was not called.
\<close>

theorem replay_nothing_to_resume:
  assumes "lastEventId = [] \<or> \<not> map_has lastEventId events"
  shows "replayEventsAfter localeCompare lastEventId send c events = Inr ([], c)"
  using assms by (auto simp: replayEventsAfter_def)

theorem replay_nothing_to_resume_witness:
  "\<not> map_has ''s_999_zz'' (snd (storeEvent ''s'' (1::nat) 1000 ''c'' []))
   \<and> replayEventsAfter codeUnitCompare ''s_999_zz'' record_send []
        (snd (storeEvent ''s'' (1::nat) 1000 ''c'' [])) = Inr ([], [])
   \<and> replayEventsAfter codeUnitCompare [] record_send []
        (snd (storeEvent ''s'' (1::nat) 1000 ''c'' [])) = Inr ([], [])"
proof -
  have unknown: "\<not> map_has ''s_999_zz'' (snd (storeEvent ''s'' (1::nat) 1000 ''c'' []))"
    by code_simp
  show ?thesis
    using unknown
      replay_nothing_to_resume [OF disjI2 [OF unknown], of codeUnitCompare record_send "[]"]
      replay_nothing_to_resume [OF disjI1 [OF refl],
        of codeUnitCompare record_send "[]" "snd (storeEvent ''s'' (1::nat) 1000 ''c'' [])"]
    by simp
qed

text \<open>
  C3. \<^verbatim>\<open>clearStream\<close> is to delete every event of the stream. It selects the events
  by the piece of the event id before the first underscore, which is the stream id
  only when the stream id has no underscore itself. After one append to the stream
  \<^verbatim>\<open>room_42\<close>, clearing that stream deletes nothing and its event count stays 1.
\<close>

theorem clearStream_keeps_stream_with_underscore:
  "clearStream ''room_42'' (snd (storeEvent ''room_42'' (7::nat) 1000 ''abc'' []))
     = snd (storeEvent ''room_42'' (7::nat) 1000 ''abc'' [])
   \<and> getStreamEventCount ''room_42''
        (clearStream ''room_42'' (snd (storeEvent ''room_42'' (7::nat) 1000 ''abc'' []))) = 1"
  by code_simp

text \<open>
  C4. A replay is to return the stream id stored with the event it resumes after. It
  returns the piece of the event id before the first underscore instead: resuming
  after the one event of the stream \<^verbatim>\<open>room_42\<close> returns \<^verbatim>\<open>room\<close>.
\<close>

theorem replay_returns_prefix_of_stream_with_underscore:
  "map_get (fst (storeEvent ''room_42'' (7::nat) 1000 ''abc'' []))
       (snd (storeEvent ''room_42'' (7::nat) 1000 ''abc'' []))
     = Some \<lparr>streamId = ''room_42'', message = 7\<rparr>
   \<and> replayEventsAfter codeUnitCompare (fst (storeEvent ''room_42'' (7::nat) 1000 ''abc'' []))
        record_send [] (snd (storeEvent ''room_42'' (7::nat) 1000 ''abc'' []))
     = Inr (''room'', [])"
  by code_simp

text \<open>
  C10. Clearing a stream is to leave the events of every other stream alone. After
  one append to the stream \<^verbatim>\<open>room_42\<close>, clearing the stream \<^verbatim>\<open>room\<close> deletes that
  event: the store is empty and the event count of \<^verbatim>\<open>room_42\<close> falls from 1 to 0.
\<close>

theorem clearStream_deletes_other_stream_with_underscore:
  "getStreamEventCount ''room_42'' (snd (storeEvent ''room_42'' (7::nat) 1000 ''abc'' [])) = 1
   \<and> clearStream ''room'' (snd (storeEvent ''room_42'' (7::nat) 1000 ''abc'' [])) = []
   \<and> getStreamEventCount ''room_42''
        (clearStream ''room'' (snd (storeEvent ''room_42'' (7::nat) 1000 ''abc'' []))) = 0"
  by code_simp

text \<open>
  C1, as amended. Take a stream \<open>S\<close> whose id is not empty and has no underscore,
  and any history of appends to an empty log in which the appends to \<open>S\<close> are
  three, with ids \<open>e1\<close>, \<open>e2\<close>, \<open>e3\<close> in that order; every other append of the
  history goes to another stream. If the ids sort in append order under a consistent
  \<^verbatim>\<open>localeCompare\<close>, then replaying after \<open>e1\<close> calls \<open>send\<close> with \<open>e2\<close>, then,
  once that call has returned, with \<open>e3\<close>, calls it with nothing else, and returns
  \<open>S\<close>; a failing call ends the replay with its failure.
\<close>

theorem replay_after_first_of_three:
  fixes send :: "string \<Rightarrow> 'm \<Rightarrow> 'c \<Rightarrow> 'e + 'c"
  assumes cmp: "consistent_comparator localeCompare"
    and S: "S \<noteq> []" "CHR ''_'' \<notin> set S"
    and hist: "filter (\<lambda>a. to_stream a = S) history =
        [\<lparr>to_stream = S, payload = m1, clock = t1, suffix = r1\<rparr>,
         \<lparr>to_stream = S, payload = m2, clock = t2, suffix = r2\<rparr>,
         \<lparr>to_stream = S, payload = m3, clock = t3, suffix = r3\<rparr>]"
    and rnd: "CHR ''_'' \<notin> set r1" "CHR ''_'' \<notin> set r2" "CHR ''_'' \<notin> set r3"
    and ids: "e1 = generateEventId S t1 r1" "e2 = generateEventId S t2 r2"
        "e3 = generateEventId S t3 r3"
    and order: "localeCompare e1 e2 < 0" "localeCompare e2 e3 < 0"
  shows "replayEventsAfter localeCompare e1 send c (storeEvents history []) =
         (case send e2 m2 c of
            Inl err \<Rightarrow> Inl err
          | Inr c' \<Rightarrow> (case send e3 m3 c' of
                         Inl err \<Rightarrow> Inl err
                       | Inr c'' \<Rightarrow> Inr (S, c'')))"
proof -
  define a1 where "a1 = \<lparr>to_stream = S, payload = m1, clock = t1, suffix = r1\<rparr>"
  define a2 where "a2 = \<lparr>to_stream = S, payload = m2, clock = t2, suffix = r2\<rparr>"
  define a3 where "a3 = \<lparr>to_stream = S, payload = m3, clock = t3, suffix = r3\<rparr>"
  define events where "events = storeEvents history ([] :: 'm event_store)"
  have x: "stored_entry a1 = (e1, \<lparr>streamId = S, message = m1\<rparr>)"
      "stored_entry a2 = (e2, \<lparr>streamId = S, message = m2\<rparr>)"
      "stored_entry a3 = (e3, \<lparr>streamId = S, message = m3\<rparr>)"
    unfolding stored_entry_def a1_def a2_def a3_def ids by simp_all
  have own_calls: "\<And>b. b \<in> set history \<Longrightarrow> to_stream b = S \<Longrightarrow> b = a1 \<or> b = a2 \<or> b = a3"
  proof -
    fix b assume "b \<in> set history" "to_stream b = S"
    then have "b \<in> set (filter (\<lambda>a. to_stream a = S) history)" by simp
    then show "b = a1 \<or> b = a2 \<or> b = a3" unfolding hist a1_def a2_def a3_def by simp
  qed
  have in_hist: "a1 \<in> set history" "a2 \<in> set history" "a3 \<in> set history"
  proof -
    have "set (filter (\<lambda>a. to_stream a = S) history) = {a1, a2, a3}"
      unfolding hist a1_def a2_def a3_def by simp
    then show "a1 \<in> set history" "a2 \<in> set history" "a3 \<in> set history" by auto
  qed
  have refl: "\<And>a. localeCompare a a = 0" using cmp by (rule consistent_comparator_refl)
  have sign: "\<And>a b. (localeCompare a b < 0) = (0 < localeCompare b a)"
    and trans: "\<And>a b c. localeCompare a b \<le> 0 \<Longrightarrow> localeCompare b c \<le> 0 \<Longrightarrow> localeCompare a c \<le> 0"
    using cmp unfolding consistent_comparator_def by blast+
  have ne12: "e1 \<noteq> e2" using order(1) refl by (metis less_irrefl)
  have ne23: "e2 \<noteq> e3" using order(2) refl by (metis less_irrefl)
  have ne13: "e1 \<noteq> e3"
  proof
    assume "e1 = e3"
    then have "localeCompare e3 e2 < 0" using order(1) by simp
    moreover have "0 < localeCompare e3 e2" using order(2) sign by blast
    ultimately show False by simp
  qed
  have same_key: "\<And>a b. a \<in> {a1, a2, a3} \<Longrightarrow> b \<in> set history \<Longrightarrow>
      fst (stored_entry b) = fst (stored_entry a) \<Longrightarrow> snd (stored_entry b) = snd (stored_entry a)"
  proof -
    fix a b
    assume a: "a \<in> {a1, a2, a3}" and b: "b \<in> set history"
      and k: "fst (stored_entry b) = fst (stored_entry a)"
    have a_str: "to_stream a = S" and a_rnd: "CHR ''_'' \<notin> set (suffix a)"
      using a rnd unfolding a1_def a2_def a3_def by auto
    have "generateEventId (to_stream b) (clock b) (suffix b) = generateEventId S (clock a) (suffix a)"
      using k a_str unfolding stored_entry_def by simp
    then have "to_stream b = S" using S(2) a_rnd by (rule generateEventId_stream_unique)
    then have "b = a1 \<or> b = a2 \<or> b = a3" using b by (rule own_calls [rotated])
    then have "b = a" using a k x ne12 ne23 ne13 by auto
    then show "snd (stored_entry b) = snd (stored_entry a)" by simp
  qed
  have stored: "stored_entry a1 \<in> set events" "stored_entry a2 \<in> set events"
      "stored_entry a3 \<in> set events"
    unfolding events_def
    by (rule storeEvents_stored [OF in_hist(1)], rule same_key, simp_all)
       (rule storeEvents_stored [OF in_hist(2)], rule same_key, simp_all,
        rule storeEvents_stored [OF in_hist(3)], rule same_key, simp_all)
  have own: "{e \<in> set events. streamId (snd e) = S} =
      {(e1, \<lparr>streamId = S, message = m1\<rparr>), (e2, \<lparr>streamId = S, message = m2\<rparr>),
       (e3, \<lparr>streamId = S, message = m3\<rparr>)}"
  proof (intro equalityI subsetI)
    fix e assume "e \<in> {e \<in> set events. streamId (snd e) = S}"
    then have e: "e \<in> set events" and s: "streamId (snd e) = S" by simp_all
    from e obtain b where b: "b \<in> set history" "e = stored_entry b"
      using storeEvents_origin [of e history "[]"] unfolding events_def by auto
    then have "to_stream b = S" using s unfolding stored_entry_def by simp
    then have "b = a1 \<or> b = a2 \<or> b = a3" using b(1) by (rule own_calls [rotated])
    then show "e \<in> {(e1, \<lparr>streamId = S, message = m1\<rparr>), (e2, \<lparr>streamId = S, message = m2\<rparr>),
       (e3, \<lparr>streamId = S, message = m3\<rparr>)}" using b(2) x by auto
  next
    fix e assume "e \<in> {(e1, \<lparr>streamId = S, message = m1\<rparr>), (e2, \<lparr>streamId = S, message = m2\<rparr>),
       (e3, \<lparr>streamId = S, message = m3\<rparr>)}"
    then show "e \<in> {e \<in> set events. streamId (snd e) = S}" using stored x by auto
  qed
  have keys: "distinct (map fst events)" unfolding events_def
    by (rule storeEvents_distinct) simp
  have sid: "getStreamIdFromEventId e1 = S" unfolding ids
    using S(2) by (rule getStreamIdFromEventId_generate)
  show ?thesis unfolding events_def [symmetric]
    by (rule replay_three [OF cmp S(1) sid keys own order])
qed

theorem replay_after_first_of_three_witness:
  "replayEventsAfter codeUnitCompare ''s_1000_c'' record_send []
     (storeEvents
        [\<lparr>to_stream = ''s'', payload = 1 :: nat, clock = 1000, suffix = ''c''\<rparr>,
         \<lparr>to_stream = ''s'', payload = 2, clock = 1001, suffix = ''b''\<rparr>,
         \<lparr>to_stream = ''t'', payload = 4, clock = 1001, suffix = ''d''\<rparr>,
         \<lparr>to_stream = ''s'', payload = 3, clock = 1002, suffix = ''a''\<rparr>] [])
   = Inr (''s'', [(''s_1001_b'', 2), (''s_1002_a'', 3)])"
proof -
  have ids: "''s_1000_c'' = generateEventId ''s'' 1000 ''c''"
      "''s_1001_b'' = generateEventId ''s'' 1001 ''b''"
      "''s_1002_a'' = generateEventId ''s'' 1002 ''a''"
    by code_simp+
  have order: "codeUnitCompare ''s_1000_c'' ''s_1001_b'' < 0"
      "codeUnitCompare ''s_1001_b'' ''s_1002_a'' < 0"
    by code_simp+
  have hist: "filter (\<lambda>a. to_stream a = ''s'')
        [\<lparr>to_stream = ''s'', payload = 1 :: nat, clock = 1000, suffix = ''c''\<rparr>,
         \<lparr>to_stream = ''s'', payload = 2, clock = 1001, suffix = ''b''\<rparr>,
         \<lparr>to_stream = ''t'', payload = 4, clock = 1001, suffix = ''d''\<rparr>,
         \<lparr>to_stream = ''s'', payload = 3, clock = 1002, suffix = ''a''\<rparr>]
      = [\<lparr>to_stream = ''s'', payload = 1, clock = 1000, suffix = ''c''\<rparr>,
         \<lparr>to_stream = ''s'', payload = 2, clock = 1001, suffix = ''b''\<rparr>,
         \<lparr>to_stream = ''s'', payload = 3, clock = 1002, suffix = ''a''\<rparr>]"
    by simp
  show ?thesis
    using replay_after_first_of_three [OF consistent_codeUnitCompare _ _ hist _ _ _ ids order,
        of record_send "[]"]
    by (simp add: record_send_def)
qed


text \<open>
  C1 as stated fails when appends share a millisecond: the random suffix then decides
  the order of the ids. Three appends to \<^verbatim>\<open>s\<close> at time 1000 with suffixes \<^verbatim>\<open>c\<close>,
  \<^verbatim>\<open>b\<close>, \<^verbatim>\<open>a\<close> get ids that sort in the reverse of append order, and the replay
  after the first one sends nothing.
\<close>

theorem replay_same_millisecond_counterexample:
  "generateEventId ''s'' 1000 ''c'' = ''s_1000_c''
   \<and> replayEventsAfter codeUnitCompare ''s_1000_c'' record_send []
     (storeEvents
        [\<lparr>to_stream = ''s'', payload = 1 :: nat, clock = 1000, suffix = ''c''\<rparr>,
         \<lparr>to_stream = ''s'', payload = 2, clock = 1000, suffix = ''b''\<rparr>,
         \<lparr>to_stream = ''s'', payload = 3, clock = 1000, suffix = ''a''\<rparr>,
         \<lparr>to_stream = ''t'', payload = 4, clock = 1000, suffix = ''d''\<rparr>] [])
     = Inr (''s'', [])"
  by code_simp

section \<open>Registry and clients: results\<close>

subsection \<open>Validation\<close>

lemma api_url_issues:
  "map path (issues_of (z_url validURL msg z_string [''api_url''] (q ''api_url'')))
   = (if spec_offending_field validURL q ''api_url'' then [[''api_url'']] else [])"
  by (simp add: z_url_def z_check_def z_string_def issues_of_def spec_offending_field_def
      split: option.splits jsvalue.splits)

lemma access_token_issues:
  "map path (issues_of (z_min 1 msg z_string [''access_token''] (q ''access_token'')))
   = (if spec_offending_field validURL q ''access_token'' then [[''access_token'']] else [])"
  by (simp add: z_min_def z_check_def z_string_def issues_of_def spec_offending_field_def
      Suc_le_eq split: option.splits jsvalue.splits)

lemma project_id_issues:
  "map path (issues_of (z_optional z_string [''project_id''] (q ''project_id'')))
   = (if spec_offending_field validURL q ''project_id'' then [[''project_id'']] else [])"
  by (simp add: z_optional_def z_string_def issues_of_def spec_offending_field_def
      split: option.splits jsvalue.splits)

lemma toggle_issues:
  assumes "f \<in> set [''read_only'', ''use_wiki'', ''use_milestone'', ''use_pipeline'']"
  shows "map path (issues_of (z_optional_default ''false'' (z_enum [''true'', ''false'']) [f] (q f)))
   = (if spec_offending_field validURL q f then [[f]] else [])"
proof -
  have f: "f \<noteq> ''api_url''" "f \<noteq> ''access_token''" "f \<noteq> ''project_id''"
    using assms by auto
  show ?thesis
    using assms unfolding spec_offending_field_def if_not_P [OF f(1)] if_not_P [OF f(2)]
      if_not_P [OF f(3)] if_P [OF assms]
    by (simp add: z_optional_default_def z_enum_def issues_of_def
        split: option.splits jsvalue.splits)
qed

lemma z_check_isl: "isl (z_check ok msg z_string p v) \<Longrightarrow> issues_of (z_check ok msg z_string p v) \<noteq> []"
  by (auto simp: z_check_def z_string_def issues_of_def split: option.splits jsvalue.splits if_splits)

lemma z_optional_isl: "isl (z_optional z_string p v) \<Longrightarrow> issues_of (z_optional z_string p v) \<noteq> []"
  by (simp add: z_optional_def z_string_def issues_of_def split: option.splits jsvalue.splits)

lemma z_toggle_isl:
  "isl (z_optional_default d (z_enum vs) p v) \<Longrightarrow> issues_of (z_optional_default d (z_enum vs) p v) \<noteq> []"
  by (auto simp: z_optional_default_def z_enum_def issues_of_def split: option.splits jsvalue.splits if_splits)

lemma gather_Inl:
  assumes "(case (r1, r2, r3, r4, r5, r6, r7) of
              (Inr a, Inr b, Inr c, Inr d, Inr e, Inr f, Inr g) \<Rightarrow> Inr (F a b c d e f g)
            | _ \<Rightarrow> Inl X) = Inl issues"
  shows "issues = X \<and> (isl r1 \<or> isl r2 \<or> isl r3 \<or> isl r4 \<or> isl r5 \<or> isl r6 \<or> isl r7)"
proof (cases r1)
  case Inl then show ?thesis using assms by simp
next
  case r1: Inr
  show ?thesis
  proof (cases r2)
    case Inl then show ?thesis using assms r1 by simp
  next
    case r2: Inr
    show ?thesis
    proof (cases r3)
      case Inl then show ?thesis using assms r1 r2 by simp
    next
      case r3: Inr
      show ?thesis
      proof (cases r4)
        case Inl then show ?thesis using assms r1 r2 r3 by simp
      next
        case r4: Inr
        show ?thesis
        proof (cases r5)
          case Inl then show ?thesis using assms r1 r2 r3 r4 by simp
        next
          case r5: Inr
          show ?thesis
          proof (cases r6)
            case Inl then show ?thesis using assms r1 r2 r3 r4 r5 by simp
          next
            case r6: Inr
            show ?thesis
            proof (cases r7)
              case Inl then show ?thesis using assms r1 r2 r3 r4 r5 r6 by simp
            next
              case Inr then show ?thesis using assms r1 r2 r3 r4 r5 r6 by simp
            qed
          qed
        qed
      qed
    qed
  qed
qed


lemma parse_Inl:
  assumes "DynamicConfigSchema_parse validURL q = Inl issues"
  shows "map path issues = map (\<lambda>f. [f]) (filter (spec_offending_field validURL q) schema_fields)"
    and "issues \<noteq> []"
proof -
  define r1 where "r1 = z_url validURL ''Invalid GitLab API URL'' z_string [''api_url''] (q ''api_url'')"
  define r2 where "r2 = z_min 1 ''Access token is required'' z_string [''access_token''] (q ''access_token'')"
  define r3 where "r3 = z_optional z_string [''project_id''] (q ''project_id'')"
  define r4 where "r4 = z_optional_default ''false'' (z_enum [''true'', ''false'']) [''read_only''] (q ''read_only'')"
  define r5 where "r5 = z_optional_default ''false'' (z_enum [''true'', ''false'']) [''use_wiki''] (q ''use_wiki'')"
  define r6 where "r6 = z_optional_default ''false'' (z_enum [''true'', ''false'']) [''use_milestone''] (q ''use_milestone'')"
  define r7 where "r7 = z_optional_default ''false'' (z_enum [''true'', ''false'']) [''use_pipeline''] (q ''use_pipeline'')"
  note r = r1_def r2_def r3_def r4_def r5_def r6_def r7_def
  have g: "issues = issues_of r1 @ issues_of r2 @ issues_of r3 @ issues_of r4 @ issues_of r5
        @ issues_of r6 @ issues_of r7
      \<and> (isl r1 \<or> isl r2 \<or> isl r3 \<or> isl r4 \<or> isl r5 \<or> isl r6 \<or> isl r7)"
    unfolding r by (rule gather_Inl) (rule assms [unfolded DynamicConfigSchema_parse_def Let_def])
  have p: "map path (issues_of r1) = (if spec_offending_field validURL q ''api_url'' then [[''api_url'']] else [])"
    "map path (issues_of r2) = (if spec_offending_field validURL q ''access_token'' then [[''access_token'']] else [])"
    "map path (issues_of r3) = (if spec_offending_field validURL q ''project_id'' then [[''project_id'']] else [])"
    "map path (issues_of r4) = (if spec_offending_field validURL q ''read_only'' then [[''read_only'']] else [])"
    "map path (issues_of r5) = (if spec_offending_field validURL q ''use_wiki'' then [[''use_wiki'']] else [])"
    "map path (issues_of r6) = (if spec_offending_field validURL q ''use_milestone'' then [[''use_milestone'']] else [])"
    "map path (issues_of r7) = (if spec_offending_field validURL q ''use_pipeline'' then [[''use_pipeline'']] else [])"
    unfolding r
    by (rule api_url_issues, rule access_token_issues, rule project_id_issues)
       (rule toggle_issues, simp)+
  show "map path issues = map (\<lambda>f. [f]) (filter (spec_offending_field validURL q) schema_fields)"
    using g p by (simp add: schema_fields_def)
  have "isl r1 \<Longrightarrow> issues_of r1 \<noteq> []" "isl r2 \<Longrightarrow> issues_of r2 \<noteq> []"
    unfolding r z_url_def z_min_def by (rule z_check_isl, assumption)+
  moreover have "isl r3 \<Longrightarrow> issues_of r3 \<noteq> []" unfolding r by (rule z_optional_isl)
  moreover have "isl r4 \<Longrightarrow> issues_of r4 \<noteq> []" "isl r5 \<Longrightarrow> issues_of r5 \<noteq> []"
    "isl r6 \<Longrightarrow> issues_of r6 \<noteq> []" "isl r7 \<Longrightarrow> issues_of r7 \<noteq> []"
    unfolding r by (rule z_toggle_isl, assumption)+
  ultimately show "issues \<noteq> []" using g by auto
qed


text \<open>
  C5. When validation of the raw input fails, \<^verbatim>\<open>createSessionConfig\<close> throws an error
  whose message lists every issue as field path, colon, message, and the registry is
  the one before the call. There is at least one issue, and the issues cover exactly
  the offending fields, each once, in the order of the schema: every violation is
  reported, not only the first.
\<close>

theorem create_rejects_invalid_input:
  assumes "DynamicConfigSchema_parse validURL queryParams = Inl issues"
  shows "createSessionConfig validURL nowCreated nowUsed sid queryParams mgr
           = (Inl (Error (''Invalid configuration parameters: ''
                          @ join '', '' (map render_issue issues))), mgr)
         \<and> issues \<noteq> []
         \<and> map path issues
             = map (\<lambda>field. [field]) (filter (spec_offending_field validURL queryParams) schema_fields)"
  using assms parse_Inl [OF assms] by (simp add: createSessionConfig_def)

theorem create_rejects_invalid_input_witness:
  "DynamicConfigSchema_parse has_http_scheme bad_params
     = Inl [\<lparr>path = [''api_url''], issue_message = ''Invalid GitLab API URL''\<rparr>,
            \<lparr>path = [''access_token''], issue_message = ''Required''\<rparr>,
            \<lparr>path = [''project_id''], issue_message = ''Expected string, received array''\<rparr>]
   \<and> createSessionConfig has_http_scheme 5 5 ''s1'' bad_params (DynamicGitLabConfigManager 1000 60)
     = (Inl (Error ''Invalid configuration parameters: api_url: Invalid GitLab API URL, access_token: Required, project_id: Expected string, received array''),
        DynamicGitLabConfigManager 1000 60)"
proof -
  have fails: "DynamicConfigSchema_parse has_http_scheme bad_params
     = Inl [\<lparr>path = [''api_url''], issue_message = ''Invalid GitLab API URL''\<rparr>,
            \<lparr>path = [''access_token''], issue_message = ''Required''\<rparr>,
            \<lparr>path = [''project_id''], issue_message = ''Expected string, received array''\<rparr>]"
    by code_simp
  have msg: "''Invalid configuration parameters: '' @ join '', '' (map render_issue
        [\<lparr>path = [''api_url''], issue_message = ''Invalid GitLab API URL''\<rparr>,
            \<lparr>path = [''access_token''], issue_message = ''Required''\<rparr>,
            \<lparr>path = [''project_id''], issue_message = ''Expected string, received array''\<rparr>])
      = ''Invalid configuration parameters: api_url: Invalid GitLab API URL, access_token: Required, project_id: Expected string, received array''"
    by (simp add: render_issue_def)
  show ?thesis
    using fails create_rejects_invalid_input [OF fails, of 5 5 "''s1''" "DynamicGitLabConfigManager 1000 60"]
    unfolding msg by simp
qed

subsection \<open>Lookups and expiry\<close>

lemma map_get_map_set: "map_get k (map_set k' v m) = (if k = k' then Some v else map_get k m)"
  by (induction m) (auto simp: map_get_def)

lemma map_get_map_delete: "map_get k (map_delete k' m) = (if k = k' then None else map_get k m)"
  by (induction m) (auto simp: map_get_def map_delete_def)

lemma map_has_map_get: "map_has k m \<longleftrightarrow> map_get k m \<noteq> None"
  by (induction m) (auto simp: map_has_def map_keys_def map_get_def)

lemma map_size_map_delete:
  "distinct (map_keys m) \<Longrightarrow> map_has k m \<Longrightarrow> Suc (map_size (map_delete k m)) = map_size m"
proof (induction m)
  case Nil
  then show ?case by (simp add: map_has_def map_keys_def)
next
  case (Cons e m)
  show ?case
  proof (cases "fst e = k")
    case True
    then have "k \<notin> fst ` set m" using Cons.prems(1) by (auto simp: map_keys_def)
    then have "filter (\<lambda>e. fst e \<noteq> k) m = m" by (auto simp: filter_id_conv)
    then show ?thesis using True by (simp add: map_delete_def map_size_def)
  next
    case False
    then have "map_has k m" using Cons.prems(2) by (auto simp: map_has_def map_keys_def)
    moreover have "distinct (map_keys m)" using Cons.prems(1) by (simp add: map_keys_def)
    ultimately have "Suc (map_size (map_delete k m)) = map_size m" by (rule Cons.IH [rotated])
    then show ?thesis using False by (simp add: map_delete_def map_size_def)
  qed
qed


text \<open>
  C6. For a session present in the registry: when \<^verbatim>\<open>Date.now()\<close> minus its
  \<^verbatim>\<open>lastUsed\<close> exceeds the timeout, \<^verbatim>\<open>getSessionConfig\<close> deletes the record and returns
  nothing, so the session is gone from the registry, the count is one less, and the
  periodic sweep at that time removes the session as well and lowers the count;
  otherwise it returns the record with \<^verbatim>\<open>lastUsed\<close> set to the new reading of the
  clock, which is also what the registry then holds.
\<close>

theorem getSessionConfig_expiry:
  assumes present: "map_get sid (sessions mgr) = Some session"
    and keys: "distinct (map_keys (sessions mgr))"
  shows "(dateNow - lastUsed session > sessionTimeout mgr \<longrightarrow>
            getSessionConfig dateNow newDate sid mgr
              = (None, mgr\<lparr>sessions := map_delete sid (sessions mgr)\<rparr>)
            \<and> \<not> map_has sid (sessions (snd (getSessionConfig dateNow newDate sid mgr)))
            \<and> Suc (getActiveSessionCount (snd (getSessionConfig dateNow newDate sid mgr)))
                = getActiveSessionCount mgr
            \<and> \<not> map_has sid (sessions (cleanupExpiredSessions dateNow mgr))
            \<and> getActiveSessionCount (cleanupExpiredSessions dateNow mgr)
                < getActiveSessionCount mgr)
       \<and> (\<not> dateNow - lastUsed session > sessionTimeout mgr \<longrightarrow>
            getSessionConfig dateNow newDate sid mgr
              = (Some (session\<lparr>lastUsed := newDate\<rparr>),
                 mgr\<lparr>sessions := map_set sid (session\<lparr>lastUsed := newDate\<rparr>) (sessions mgr)\<rparr>)
            \<and> map_get sid (sessions (snd (getSessionConfig dateNow newDate sid mgr)))
                = Some (session\<lparr>lastUsed := newDate\<rparr>))"
proof (intro conjI impI)
  assume expired: "dateNow - lastUsed session > sessionTimeout mgr"
  show g: "getSessionConfig dateNow newDate sid mgr
      = (None, mgr\<lparr>sessions := map_delete sid (sessions mgr)\<rparr>)"
    using present expired by (simp add: getSessionConfig_def)
  show "\<not> map_has sid (sessions (snd (getSessionConfig dateNow newDate sid mgr)))"
    unfolding g by (simp add: map_has_map_get map_get_map_delete)
  have "map_has sid (sessions mgr)" using present by (simp add: map_has_map_get)
  then show "Suc (getActiveSessionCount (snd (getSessionConfig dateNow newDate sid mgr)))
      = getActiveSessionCount mgr"
    unfolding g getActiveSessionCount_def using keys by (simp add: map_size_map_delete)
  have stored: "(sid, session) \<in> set (sessions mgr)"
    using present unfolding map_get_def by (rule map_of_SomeD)
  then have "sid \<in> set (map fst (filter (\<lambda>entry. now - lastUsed (snd entry) > sessionTimeout mgr) (sessions mgr)))"
    if "now - lastUsed session > sessionTimeout mgr" for now
    using that by force
  then show "\<not> map_has sid (sessions (cleanupExpiredSessions dateNow mgr))"
    using expired
    by (auto simp: cleanupExpiredSessions_def Let_def foldl_map_delete map_has_def map_keys_def)
  have "\<not> fst (sid, session) \<notin> set (map fst
      (filter (\<lambda>entry. dateNow - lastUsed (snd entry) > sessionTimeout mgr) (sessions mgr)))"
    using stored expired by force
  with stored have "length (filter (\<lambda>e. fst e \<notin> set (map fst
      (filter (\<lambda>entry. dateNow - lastUsed (snd entry) > sessionTimeout mgr) (sessions mgr))))
      (sessions mgr)) < length (sessions mgr)"
    by (rule length_filter_less)
  then show "getActiveSessionCount (cleanupExpiredSessions dateNow mgr) < getActiveSessionCount mgr"
    by (simp add: getActiveSessionCount_def map_size_def cleanupExpiredSessions_def Let_def
        foldl_map_delete)
next
  assume fresh: "\<not> dateNow - lastUsed session > sessionTimeout mgr"
  show g: "getSessionConfig dateNow newDate sid mgr
      = (Some (session\<lparr>lastUsed := newDate\<rparr>),
         mgr\<lparr>sessions := map_set sid (session\<lparr>lastUsed := newDate\<rparr>) (sessions mgr)\<rparr>)"
    using present fresh by (simp add: getSessionConfig_def Let_def)
  show "map_get sid (sessions (snd (getSessionConfig dateNow newDate sid mgr)))
      = Some (session\<lparr>lastUsed := newDate\<rparr>)"
    unfolding g by (simp add: map_get_map_set)
qed


theorem getSessionConfig_expiry_witness:
  "getSessionConfig 3600001 3600002 ''s0'' (create_sessions 1 (DynamicGitLabConfigManager 1000 60))
     = (None, DynamicGitLabConfigManager 1000 60)
   \<and> getActiveSessionCount (create_sessions 1 (DynamicGitLabConfigManager 1000 60)) = 1
   \<and> getActiveSessionCount
        (snd (getSessionConfig 3600001 3600002 ''s0''
               (create_sessions 1 (DynamicGitLabConfigManager 1000 60)))) = 0
   \<and> getActiveSessionCount
        (cleanupExpiredSessions 3600001 (create_sessions 1 (DynamicGitLabConfigManager 1000 60))) = 0
   \<and> fst (getSessionConfig 3600000 3600002 ''s0'' (create_sessions 1 (DynamicGitLabConfigManager 1000 60)))
     = Some \<lparr>sessionId = ''s0'', config = sample_config, createdAt = 0, lastUsed = 3600002\<rparr>"
proof -
  define mgr where "mgr = create_sessions 1 (DynamicGitLabConfigManager 1000 60)"
  define session where
    "session = \<lparr>sessionId = ''s0'', config = sample_config, createdAt = 0, lastUsed = 0\<rparr>"
  have mgr: "mgr = \<lparr>sessions = [(''s0'', session)], maxSessions = 1000, sessionTimeout = 3600000\<rparr>"
    unfolding mgr_def session_def by code_simp
  have present: "map_get ''s0'' (sessions mgr) = Some session"
    unfolding mgr by (simp add: map_get_def)
  have keys: "distinct (map_keys (sessions mgr))"
    unfolding mgr by (simp add: map_keys_def)
  have expired: "3600001 - lastUsed session > sessionTimeout mgr"
    unfolding mgr session_def by simp
  have fresh: "\<not> 3600000 - lastUsed session > sessionTimeout mgr"
    unfolding mgr session_def by simp
  have sweep: "getActiveSessionCount (cleanupExpiredSessions 3600001 mgr) = 0"
    unfolding mgr session_def
    by (simp add: getActiveSessionCount_def cleanupExpiredSessions_def map_size_def map_delete_def)
  show ?thesis
    using getSessionConfig_expiry [OF present keys, of 3600001 3600002]
      getSessionConfig_expiry [OF present keys, of 3600000 3600002]
      expired fresh sweep
    unfolding mgr_def [symmetric]
    by (simp add: mgr session_def DynamicGitLabConfigManager_def map_delete_def
        getActiveSessionCount_def map_size_def)
qed


text \<open>
  C9, as amended. \<^verbatim>\<open>getEffectiveProjectId\<close> returns the caller's identifier when it is
  present and not empty, otherwise the configured default project id when there is
  one, otherwise the empty string.
\<close>

theorem getEffectiveProjectId_precedence:
  "(requestProjectId = Some r \<and> r \<noteq> [] \<longrightarrow> getEffectiveProjectId cl requestProjectId = r)
   \<and> ((requestProjectId = None \<or> requestProjectId = Some []) \<and> project_id (config (sessionConfig cl)) = Some d
        \<longrightarrow> getEffectiveProjectId cl requestProjectId = d)
   \<and> ((requestProjectId = None \<or> requestProjectId = Some []) \<and> project_id (config (sessionConfig cl)) = None
        \<longrightarrow> getEffectiveProjectId cl requestProjectId = [])"
  by (auto simp: getEffectiveProjectId_def js_or_def truthy_def)

theorem getEffectiveProjectId_precedence_witness:
  "getEffectiveProjectId (new_SessionAwareGitLabClient no_proxy (sample_session ''s1'')) (Some ''other/repo'')
     = ''other/repo''
   \<and> getEffectiveProjectId (new_SessionAwareGitLabClient no_proxy (sample_session ''s1'')) None
     = ''group/project''"
proof -
  have d: "project_id (config (sessionConfig (new_SessionAwareGitLabClient no_proxy (sample_session ''s1''))))
      = Some ''group/project''"
    by (simp add: new_SessionAwareGitLabClient_def sample_session_def sample_config_def)
  show ?thesis
    using getEffectiveProjectId_precedence
        [of "Some ''other/repo''" "''other/repo''"
          "new_SessionAwareGitLabClient no_proxy (sample_session ''s1'')"]
      getEffectiveProjectId_precedence
        [of None _ "new_SessionAwareGitLabClient no_proxy (sample_session ''s1'')" "''group/project''"]
      d
    by simp
qed


text \<open>
  C9 as stated fails for an argument that is present and empty: the empty string is
  falsy, so the configured default is returned, not the caller's empty identifier.
\<close>

theorem getEffectiveProjectId_empty_argument_counterexample:
  "getEffectiveProjectId (new_SessionAwareGitLabClient no_proxy (sample_session ''s1'')) (Some [])
     = ''group/project''"
  by code_simp


subsection \<open>The client pool\<close>

lemma map_set_fresh: "\<not> map_has k m \<Longrightarrow> map_set k v m = m @ [(k, v)]"
  by (induction m) (auto simp: map_has_def map_keys_def)

lemma map_get_None_has: "map_get k m = None \<Longrightarrow> \<not> map_has k m"
  by (simp add: map_has_map_get)

lemma getClient_existing:
  "map_get (sessionId sc) (clients pool) = Some cl \<Longrightarrow> getClient pf sc pool = (cl, pool)"
  by (simp add: getClient_def)

lemma getClient_lookup:
  "map_get (sessionId sc) (clients (snd (getClient pf sc pool))) = Some (fst (getClient pf sc pool))"
  by (simp add: getClient_def Let_def map_get_map_set split: option.splits)

lemma getClient_pool_ok:
  assumes "pool_ok pool"
  shows "pool_ok (snd (getClient pf sc pool))"
proof (cases "map_get (sessionId sc) (clients pool)")
  case (Some cl)
  then show ?thesis using assms by (simp add: getClient_def)
next
  case None
  then have fresh: "\<not> map_has (sessionId sc) (clients pool)" by (rule map_get_None_has)
  have lt: "\<And>cl. cl \<in> set (map snd (clients pool)) \<Longrightarrow> fst cl < allocated pool"
    using assms unfolding pool_ok_def map_values_def list_all_iff by blast
  then have "allocated pool \<notin> fst ` set (map snd (clients pool))" by fastforce
  then show ?thesis
    using assms None fresh
    unfolding pool_ok_def getClient_def Let_def map_set_fresh [OF fresh] map_values_def map_keys_def
      map_has_def list_all_iff
    by (auto simp: less_Suc_eq)
qed


lemma new_SessionClientManager_pool_ok: "pool_ok new_SessionClientManager"
  by (simp add: pool_ok_def new_SessionClientManager_def map_keys_def map_values_def)

lemma clearAll_pool_ok: "pool_ok (clearAll pool)"
  by (simp add: pool_ok_def clearAll_def map_keys_def map_values_def)

lemma removeClient_pool_ok:
  assumes "pool_ok pool"
  shows "pool_ok (snd (removeClient sid pool))"
proof -
  have keys: "distinct (map fst (filter (\<lambda>e. fst e \<noteq> sid) (clients pool)))"
    using assms unfolding pool_ok_def map_keys_def by (simp add: distinct_map_filter)
  have "distinct (map (\<lambda>e. fst (snd e)) (clients pool))"
    using assms unfolding pool_ok_def map_values_def by (simp add: comp_def)
  then have refs: "distinct (map (\<lambda>e. fst (snd e)) (filter (\<lambda>e. fst e \<noteq> sid) (clients pool)))"
    by (rule distinct_map_filter)
  have below: "list_all (\<lambda>cl. fst cl < allocated pool)
      (map snd (filter (\<lambda>e. fst e \<noteq> sid) (clients pool)))"
    using assms unfolding pool_ok_def map_values_def list_all_iff by auto
  show ?thesis
    using keys refs below
    by (simp add: pool_ok_def removeClient_def map_delete_def map_keys_def map_values_def comp_def)
qed

lemma removeClient_others:
  "k \<noteq> sid \<Longrightarrow> map_get k (clients (snd (removeClient sid pool))) = map_get k (clients pool)"
  by (simp add: removeClient_def map_get_map_delete)

text \<open>
  C8. After a call of \<^verbatim>\<open>getClient\<close> for a session id, a second call with any record
  of the same session id, whatever its configuration and the environment, returns
  the same instance (the same reference and object) and leaves the pool as it is.
  When the first call found no client for the id, that instance is a new one, bound
  to the record of the first call. \<^verbatim>\<open>getClient\<close> keeps every client the pool held, and
  it keeps the pool's invariant: one client per session id, one reference per client.
\<close>

theorem getClient_at_most_one_instance:
  assumes first: "getClient pf1 sc1 pool = (cl, pool1)"
    and same: "sessionId sc2 = sessionId sc1"
  shows "getClient pf2 sc2 pool1 = (cl, pool1)
       \<and> (\<not> map_has (sessionId sc1) (clients pool) \<longrightarrow>
            cl = (allocated pool, new_SessionAwareGitLabClient pf1 sc1)
            \<and> sessionConfig (snd cl) = sc1)
       \<and> (\<forall>k c. map_get k (clients pool) = Some c \<longrightarrow> map_get k (clients pool1) = Some c)
       \<and> (pool_ok pool \<longrightarrow> pool_ok pool1)"
proof (intro conjI impI allI)
  have look: "map_get (sessionId sc1) (clients pool1) = Some cl"
    using getClient_lookup [of sc1 pf1 pool] first by simp
  show "getClient pf2 sc2 pool1 = (cl, pool1)"
    by (rule getClient_existing) (simp add: same look)
  show "map_get k (clients pool) = Some c \<Longrightarrow> map_get k (clients pool1) = Some c" for k c
    using first by (auto simp: getClient_def Let_def map_get_map_set split: option.splits)
  show "pool_ok pool \<Longrightarrow> pool_ok pool1"
    using getClient_pool_ok [of pool pf1 sc1] first by simp
  assume "\<not> map_has (sessionId sc1) (clients pool)"
  then have "map_get (sessionId sc1) (clients pool) = None"
    by (cases "map_get (sessionId sc1) (clients pool)") (simp_all add: map_has_map_get)
  then have "cl = (allocated pool, new_SessionAwareGitLabClient pf1 sc1)"
    using first by (simp add: getClient_def Let_def)
  then show "cl = (allocated pool, new_SessionAwareGitLabClient pf1 sc1)"
    and "sessionConfig (snd cl) = sc1"
    by (simp_all add: new_SessionAwareGitLabClient_def)
qed

theorem getClient_at_most_one_instance_witness:
  "getClient no_proxy ((sample_session ''s1'')\<lparr>config := sample_config\<lparr>read_only := ''true''\<rparr>\<rparr>)
       (snd (getClient no_proxy (sample_session ''s1'') new_SessionClientManager))
     = getClient no_proxy (sample_session ''s1'') new_SessionClientManager
   \<and> fst (getClient no_proxy (sample_session ''s1'') new_SessionClientManager)
     = (0, \<lparr>sessionConfig = sample_session ''s1'', agent = None\<rparr>)"
proof -
  obtain cl pool1 where first:
    "getClient no_proxy (sample_session ''s1'') new_SessionClientManager = (cl, pool1)"
    by (cases "getClient no_proxy (sample_session ''s1'') new_SessionClientManager")
  have same: "sessionId ((sample_session ''s1'')\<lparr>config := sample_config\<lparr>read_only := ''true''\<rparr>\<rparr>)
      = sessionId (sample_session ''s1'')"
    by simp
  have fresh: "\<not> map_has (sessionId (sample_session ''s1'')) (clients new_SessionClientManager)"
    by (simp add: new_SessionClientManager_def map_has_def map_keys_def)
  have new: "new_SessionAwareGitLabClient no_proxy (sample_session ''s1'')
      = \<lparr>sessionConfig = sample_session ''s1'', agent = None\<rparr>"
    by (simp add: new_SessionAwareGitLabClient_def setupProxyAgent_def no_proxy_def js_or_def truthy_def)
  have zero: "allocated new_SessionClientManager = 0"
    by (simp add: new_SessionClientManager_def)
  show ?thesis
    using getClient_at_most_one_instance [OF first same, of no_proxy] fresh
    unfolding first new zero by simp
qed

subsection \<open>Eviction under capacity pressure\<close>

lemma consistent_lastUsed:
  "consistent_comparator (\<lambda>a b. lastUsed (snd a) - lastUsed (snd b))"
  unfolding consistent_comparator_def by auto

lemma filter_not_in_keys:
  assumes "distinct (map fst m)" "set ev \<subseteq> set m"
  shows "filter (\<lambda>e. fst e \<notin> fst ` set ev) m = filter (\<lambda>e. e \<notin> set ev) m"
proof (rule filter_cong [OF refl])
  fix e assume e: "e \<in> set m"
  show "(fst e \<notin> fst ` set ev) = (e \<notin> set ev)"
  proof
    assume "fst e \<notin> fst ` set ev" then show "e \<notin> set ev" by force
  next
    assume n: "e \<notin> set ev"
    show "fst e \<notin> fst ` set ev"
    proof
      assume "fst e \<in> fst ` set ev"
      then obtain e' where e': "e' \<in> set ev" "fst e' = fst e" by force
      then have "e' \<in> set m" using assms(2) by blast
      then have "(fst e', snd e') \<in> set m" "(fst e, snd e) \<in> set m"
        using e by simp_all
      then have "(fst e, snd e') \<in> set m" "(fst e, snd e) \<in> set m"
        unfolding e'(2) .
      then have "snd e' = snd e" by (rule eq_key_imp_eq_value [OF assms(1)])
      then have "e' = e" using e'(2) by (simp add: prod_eq_iff)
      then show False using n e'(1) by simp
    qed
  qed
qed

lemma cleanupOldestSessions_sessions:
  fixes n :: nat and mgr :: manager
  assumes keys: "distinct (map_keys (sessions mgr))"
  defines "evicted \<equiv> take n (array_sort (\<lambda>a b. lastUsed (snd a) - lastUsed (snd b)) (sessions mgr))"
  shows "sessions (cleanupOldestSessions n mgr) = filter (\<lambda>e. e \<notin> set evicted) (sessions mgr)"
    and "length evicted = min n (map_size (sessions mgr))"
    and "distinct (map fst evicted)"
    and "set evicted \<subseteq> set (sessions mgr)"
    and "\<And>a b. a \<in> set evicted \<Longrightarrow> b \<in> set (sessions mgr) \<Longrightarrow> b \<notin> set evicted \<Longrightarrow>
           lastUsed (snd a) \<le> lastUsed (snd b)"
proof -
  define byAge where "byAge = array_sort (\<lambda>a b. lastUsed (snd a) - lastUsed (snd b)) (sessions mgr)"
  have ev: "evicted = take n byAge" unfolding evicted_def byAge_def by simp
  have "set (take n byAge) \<subseteq> set byAge" by (rule set_take_subset)
  then show sub: "set evicted \<subseteq> set (sessions mgr)"
    unfolding ev byAge_def set_array_sort .
  show "length evicted = min n (map_size (sessions mgr))"
    unfolding ev byAge_def by (simp add: length_array_sort map_size_def min.commute)
  have ds: "distinct (map fst byAge)"
    unfolding byAge_def using keys by (simp add: distinct_map_array_sort map_keys_def)
  then show "distinct (map fst evicted)" unfolding ev by (simp add: take_map [symmetric])
  have "sessions (cleanupOldestSessions n mgr)
      = filter (\<lambda>e. fst e \<notin> fst ` set evicted) (sessions mgr)"
  proof -
    have "foldl (\<lambda>m entry. map_delete (fst entry) m) (sessions mgr) evicted
        = foldl (\<lambda>m k. map_delete k m) (sessions mgr) (map fst evicted)"
      by (simp add: foldl_map)
    then show ?thesis
      unfolding cleanupOldestSessions_def Let_def evicted_def [symmetric]
      by (simp add: foldl_map_delete)
  qed
  also have "\<dots> = filter (\<lambda>e. e \<notin> set evicted) (sessions mgr)"
    using keys sub unfolding map_keys_def by (rule filter_not_in_keys)
  finally show "sessions (cleanupOldestSessions n mgr) = filter (\<lambda>e. e \<notin> set evicted) (sessions mgr)" .
  fix a b
  assume a: "a \<in> set evicted" and b: "b \<in> set (sessions mgr)" "b \<notin> set evicted"
  have "b \<in> set byAge" using b(1) unfolding byAge_def by (simp add: set_array_sort)
  moreover have "set byAge = set (take n byAge) \<union> set (drop n byAge)"
    by (metis append_take_drop_id set_append)
  ultimately have bd: "b \<in> set (drop n byAge)" using b(2) unfolding ev by blast
  have "sorted_wrt (\<lambda>a b. lastUsed (snd a) - lastUsed (snd b) \<le> 0) (take n byAge @ drop n byAge)"
    unfolding append_take_drop_id byAge_def
    by (rule sorted_array_sort [OF consistent_lastUsed])
  then have "lastUsed (snd a) - lastUsed (snd b) \<le> 0"
    using a bd unfolding ev sorted_wrt_append by blast
  then show "lastUsed (snd a) \<le> lastUsed (snd b)" by simp
qed


text \<open>
  C2, as amended. When \<^verbatim>\<open>createSessionConfig\<close> is called with valid input while the
  registry holds at least \<open>maxSessions\<close> records, it first evicts exactly
  \<open>maxSessions div 10\<close> records, the floor of a tenth of the capacity; no surviving
  record has a smaller \<^verbatim>\<open>lastUsed\<close> than an evicted one; then it stores the new record
  under the session id.
\<close>

theorem create_at_capacity_evicts_oldest:
  assumes valid: "DynamicConfigSchema_parse validURL queryParams = Inr cfg"
    and keys: "distinct (map_keys (sessions mgr))"
    and full: "maxSessions mgr \<le> map_size (sessions mgr)"
  shows "\<exists>evicted.
           length evicted = maxSessions mgr div 10
         \<and> distinct (map fst evicted)
         \<and> set evicted \<subseteq> set (sessions mgr)
         \<and> (\<forall>a\<in>set evicted. \<forall>b\<in>set (sessions mgr) - set evicted.
               lastUsed (snd a) \<le> lastUsed (snd b))
         \<and> createSessionConfig validURL nowCreated nowUsed sid queryParams mgr
             = (Inr \<lparr>sessionId = sid, config = cfg, createdAt = nowCreated, lastUsed = nowUsed\<rparr>,
                mgr\<lparr>sessions :=
                  map_set sid \<lparr>sessionId = sid, config = cfg, createdAt = nowCreated, lastUsed = nowUsed\<rparr>
                    (filter (\<lambda>e. e \<notin> set evicted) (sessions mgr))\<rparr>)"
proof -
  define n where "n = maxSessions mgr div 10"
  define evicted where
    "evicted = take n (array_sort (\<lambda>a b. lastUsed (snd a) - lastUsed (snd b)) (sessions mgr))"
  note c = cleanupOldestSessions_sessions [OF keys, where n = n, folded evicted_def]
  have "n \<le> map_size (sessions mgr)" using full unfolding n_def by simp
  then have len: "length evicted = maxSessions mgr div 10" using c(2) unfolding n_def by simp
  have mgr1: "cleanupOldestSessions n mgr = mgr\<lparr>sessions := filter (\<lambda>e. e \<notin> set evicted) (sessions mgr)\<rparr>"
    using c(1) by (simp add: cleanupOldestSessions_def Let_def)
  have "createSessionConfig validURL nowCreated nowUsed sid queryParams mgr
      = (Inr \<lparr>sessionId = sid, config = cfg, createdAt = nowCreated, lastUsed = nowUsed\<rparr>,
         mgr\<lparr>sessions :=
           map_set sid \<lparr>sessionId = sid, config = cfg, createdAt = nowCreated, lastUsed = nowUsed\<rparr>
             (filter (\<lambda>e. e \<notin> set evicted) (sessions mgr))\<rparr>)"
    using valid full mgr1 by (simp add: createSessionConfig_def Let_def floor_tenth_def n_def)
  moreover have "\<forall>a\<in>set evicted. \<forall>b\<in>set (sessions mgr) - set evicted.
      lastUsed (snd a) \<le> lastUsed (snd b)"
    using c(5) by blast
  ultimately show ?thesis using len c(3) c(4) by blast
qed

theorem create_at_capacity_evicts_oldest_witness:
  "\<exists>evicted.
       length evicted = maxSessions (create_sessions 10 (DynamicGitLabConfigManager 10 60)) div 10
     \<and> distinct (map fst evicted)
     \<and> set evicted \<subseteq> set (sessions (create_sessions 10 (DynamicGitLabConfigManager 10 60)))
     \<and> (\<forall>a\<in>set evicted.
          \<forall>b\<in>set (sessions (create_sessions 10 (DynamicGitLabConfigManager 10 60))) - set evicted.
            lastUsed (snd a) \<le> lastUsed (snd b))
     \<and> createSessionConfig has_http_scheme 100 101 ''new'' sample_params
          (create_sessions 10 (DynamicGitLabConfigManager 10 60))
        = (Inr \<lparr>sessionId = ''new'', config = sample_config, createdAt = 100, lastUsed = 101\<rparr>,
           (create_sessions 10 (DynamicGitLabConfigManager 10 60))\<lparr>sessions :=
             map_set ''new''
               \<lparr>sessionId = ''new'', config = sample_config, createdAt = 100, lastUsed = 101\<rparr>
               (filter (\<lambda>e. e \<notin> set evicted)
                  (sessions (create_sessions 10 (DynamicGitLabConfigManager 10 60))))\<rparr>)"
proof -
  have valid: "DynamicConfigSchema_parse has_http_scheme sample_params = Inr sample_config"
    by code_simp
  have keys: "distinct (map_keys (sessions (create_sessions 10 (DynamicGitLabConfigManager 10 60))))"
    by code_simp
  have full: "maxSessions (create_sessions 10 (DynamicGitLabConfigManager 10 60))
      \<le> map_size (sessions (create_sessions 10 (DynamicGitLabConfigManager 10 60)))"
    by code_simp
  show ?thesis
    by (rule create_at_capacity_evicts_oldest [OF valid keys full])
qed


text \<open>
  C2 as stated fails where a tenth of the capacity is not whole: the code takes the
  floor, not the ceiling. With capacity 15 and 15 sessions, a creation evicts one
  session, the oldest (\<^verbatim>\<open>s0\<close>), keeps the second oldest (\<^verbatim>\<open>s1\<close>), and the registry
  holds 15 sessions afterwards; the ceiling of 1.5 would evict two and leave 14.
\<close>

theorem create_at_capacity_fifteen_counterexample:
  "maxSessions (create_sessions 15 (DynamicGitLabConfigManager 15 60)) = 15
   \<and> getActiveSessionCount (create_sessions 15 (DynamicGitLabConfigManager 15 60)) = 15
   \<and> getActiveSessionCount
        (snd (createSessionConfig has_http_scheme 100 101 ''new'' sample_params
               (create_sessions 15 (DynamicGitLabConfigManager 15 60)))) = 15
   \<and> \<not> map_has ''s0''
        (sessions (snd (createSessionConfig has_http_scheme 100 101 ''new'' sample_params
                         (create_sessions 15 (DynamicGitLabConfigManager 15 60)))))
   \<and> map_has ''s1''
        (sessions (snd (createSessionConfig has_http_scheme 100 101 ''new'' sample_params
                         (create_sessions 15 (DynamicGitLabConfigManager 15 60)))))"
  by code_simp

end
